theory Spec2Isabelle
  imports Main "HOL-Library.Word"
begin

section \<open>A shallow embedding of the Brainfuck compiler \<^verbatim>\<open>bfc.c\<close>\<close>

text \<open>
  The C program reads a source file into memory and writes x86-64 assembly text. The
  embedding keeps the C data as it is: \<^verbatim>\<open>int\<close> is a 32-bit word read as two's
  complement (\<open>sint\<close>, \<open><s\<close>), \<^verbatim>\<open>size_t\<close> is a 64-bit unsigned word, \<^verbatim>\<open>char\<close> is
  an 8-bit \<open>char\<close>, the loop stack is an array with a top index and a capacity, and
  \<^verbatim>\<open>exit(1)\<close> after a message on stderr is the \<open>Inl\<close> branch of a sum, carrying the
  compiler state (and so the text written so far) at the moment of the exit.

  Arithmetic on words wraps around. In C an overflow of an \<^verbatim>\<open>int\<close> is undefined, so the
  theorems about whole runs are stated for sources of fewer than \<open>2 ^ 30\<close> bytes, where
  the run counts, the label counter and the capacity of the loop stack all stay in
  range (the program itself names a bound of 1000000 bytes, \<^verbatim>\<open>MAX_CODE_SIZE\<close>, which it
  never checks). Failure of \<^verbatim>\<open>malloc\<close> and \<^verbatim>\<open>realloc\<close> and of the file operations is not
  modelled.
\<close>

subsection \<open>Data\<close>

type_synonym cint = "32 word"

type_synonym size_t = "64 word"

text \<open>\<^verbatim>\<open>typedef struct { char *code; size_t length; size_t position; } Source;\<close>\<close>

record Source =
  code :: "char list"
  length_s :: size_t
  position :: size_t

text \<open>
  The text written to the output file, one element for each block of \<^verbatim>\<open>fprintf\<close>
  calls that the compiler writes together; \<open>render\<close> below gives the characters of
  each block, and \<open>emitted_text\<close> the file contents.
\<close>

datatype asm =
    Header | Footer
  | Incb | Decb | Incq | Decq
  | Addb cint | Subb cint | Addq cint | Subq cint
  | Write_char | Read_char
  | Loop_start cint | Loop_end cint

text \<open>
  \<^verbatim>\<open>typedef struct { FILE *output; int label_counter; int *loop_stack;
  int loop_stack_top; int loop_stack_size; } Compiler;\<close>
\<close>

record Compiler =
  output_f :: "asm list"
  label_counter :: cint
  loop_stack :: "cint list"
  loop_stack_top :: cint
  loop_stack_size :: cint

text \<open>\<^verbatim>\<open>error(msg, pos)\<close> prints the message and exits with status 1; the two calls
  of the program pass "Unmatched ']'" and "Unmatched '['".\<close>

datatype error = UnmatchedClose | UnmatchedOpen

subsection \<open>The emitted text\<close>

definition NL :: string where
  "NL = [CHR 0x0A]"

text \<open>\<^verbatim>\<open>%d\<close> of \<^verbatim>\<open>fprintf\<close>: a signed decimal numeral.\<close>

fun dec_digit :: "nat \<Rightarrow> char" where
  "dec_digit n = ''0123456789'' ! (n mod 10)"

function dec_nat :: "nat \<Rightarrow> string" where
  "dec_nat n = (if n < 10 then [dec_digit n] else dec_nat (n div 10) @ [dec_digit n])"
  by pat_completeness auto
termination
  by (relation "measure (\<lambda>n. n)") auto

definition fmt_d :: "cint \<Rightarrow> string" where
  "fmt_d w = (if sint w < 0 then CHR ''-'' # dec_nat (nat (- sint w)) else dec_nat (nat (sint w)))"

fun render :: "asm \<Rightarrow> string" where
  "render Header =
     ''    .section .data'' @ NL @
     ''memory:'' @ NL @
     ''    .zero 30000'' @ NL @ NL @
     ''    .section .text'' @ NL @
     ''    .globl _start'' @ NL @ NL @
     ''_start:'' @ NL @
     ''    # Initialize data pointer in r12'' @ NL @
     ''    leaq memory(%rip), %r12'' @ NL @ NL"
| "render Footer =
     NL @ ''    # Exit program'' @ NL @
     ''    movq $60, %rax      # sys_exit'' @ NL @
     ''    xorq %rdi, %rdi    # exit code 0'' @ NL @
     ''    syscall'' @ NL"
| "render Incb = ''    incb (%r12)         # +'' @ NL"
| "render Decb = ''    decb (%r12)         # -'' @ NL"
| "render Incq = ''    incq %r12           # >'' @ NL"
| "render Decq = ''    decq %r12           # <'' @ NL"
| "render (Addb n) = ''    addb $'' @ fmt_d n @ '', (%r12)    # + x'' @ fmt_d n @ NL"
| "render (Subb n) = ''    subb $'' @ fmt_d n @ '', (%r12)    # - x'' @ fmt_d n @ NL"
| "render (Addq n) = ''    addq $'' @ fmt_d n @ '', %r12      # > x'' @ fmt_d n @ NL"
| "render (Subq n) = ''    subq $'' @ fmt_d n @ '', %r12      # < x'' @ fmt_d n @ NL"
| "render Write_char =
     ''    # Output character (.)'' @ NL @
     ''    movq $1, %rax       # sys_write'' @ NL @
     ''    movq $1, %rdi       # stdout'' @ NL @
     ''    movq %r12, %rsi    # buffer'' @ NL @
     ''    movq $1, %rdx       # length'' @ NL @
     ''    syscall'' @ NL @ NL"
| "render Read_char =
     ''    # Input character (,)'' @ NL @
     ''    movq $0, %rax       # sys_read'' @ NL @
     ''    movq $0, %rdi       # stdin'' @ NL @
     ''    movq %r12, %rsi    # buffer'' @ NL @
     ''    movq $1, %rdx       # length'' @ NL @
     ''    syscall'' @ NL @ NL"
| "render (Loop_start l) =
     ''loop_start_'' @ fmt_d l @ '':           # ['' @ NL @
     ''    cmpb $0, (%r12)'' @ NL @
     ''    je loop_end_'' @ fmt_d l @ NL @ NL"
| "render (Loop_end l) =
     ''    cmpb $0, (%r12)'' @ NL @
     ''    jne loop_start_'' @ fmt_d l @ ''    # ]'' @ NL @
     ''loop_end_'' @ fmt_d l @ '':'' @ NL @ NL"

definition emitted_text :: "asm list \<Rightarrow> string" where
  "emitted_text out = concat (map render out)"

definition emit :: "Compiler \<Rightarrow> asm \<Rightarrow> Compiler" where
  "emit c a = c\<lparr>output_f := output_f c @ [a]\<rparr>"

subsection \<open>The compiler state\<close>

text \<open>
  \<^verbatim>\<open>create_compiler\<close>: the counter starts at 0, the stack has room for 100 labels and
  is empty (top index -1). \<^verbatim>\<open>malloc\<close> leaves the cells indeterminate; the model fills
  them with 0, and no cell is read before \<^verbatim>\<open>push_loop\<close> has written it.
\<close>

definition create_compiler :: Compiler where
  "create_compiler =
     \<lparr>output_f = [], label_counter = 0, loop_stack = replicate 100 0,
      loop_stack_top = - 1, loop_stack_size = 100\<rparr>"

text \<open>\<^verbatim>\<open>realloc\<close> to \<open>n\<close> cells keeps the old cells.\<close>

definition realloc :: "cint list \<Rightarrow> nat \<Rightarrow> cint list" where
  "realloc xs n = take n xs @ replicate (n - length xs) 0"

text \<open>
  \<^verbatim>\<open>if (top >= size - 1) { size *= 2; realloc } loop_stack[++top] = label;\<close>
  The byte count of the \<^verbatim>\<open>realloc\<close> is \<^verbatim>\<open>sizeof(int) * size\<close>, so the new array has
  as many cells as the (non-negative) new size.
\<close>

definition push_loop :: "Compiler \<Rightarrow> cint \<Rightarrow> Compiler" where
  "push_loop c label =
     (let c1 = (if loop_stack_size c - 1 \<le>s loop_stack_top c
                then c\<lparr>loop_stack_size := loop_stack_size c * 2,
                       loop_stack := realloc (loop_stack c) (nat (sint (loop_stack_size c * 2)))\<rparr>
                else c);
          top = loop_stack_top c1 + 1
      in c1\<lparr>loop_stack_top := top,
             loop_stack := (loop_stack c1)[nat (sint top) := label]\<rparr>)"

text \<open>\<^verbatim>\<open>if (top < 0) error("Unmatched ']'", 0); return loop_stack[top--];\<close>\<close>

definition pop_loop :: "Compiler \<Rightarrow> error \<times> Compiler + cint \<times> Compiler" where
  "pop_loop c =
     (if loop_stack_top c <s 0 then Inl (UnmatchedClose, c)
      else Inr (loop_stack c ! nat (sint (loop_stack_top c)),
                c\<lparr>loop_stack_top := loop_stack_top c - 1\<rparr>))"

text \<open>\<^verbatim>\<open>return c->label_counter++;\<close>\<close>

definition next_label :: "Compiler \<Rightarrow> cint \<times> Compiler" where
  "next_label c = (label_counter c, c\<lparr>label_counter := label_counter c + 1\<rparr>)"

definition emit_header :: "Compiler \<Rightarrow> Compiler" where
  "emit_header c = emit c Header"

definition emit_footer :: "Compiler \<Rightarrow> Compiler" where
  "emit_footer c = emit c Footer"

subsection \<open>Compiling one instruction\<close>

text \<open>The \<^verbatim>\<open>switch\<close> of \<^verbatim>\<open>compile_instruction\<close>; a character with no case writes
  nothing and changes nothing.\<close>

definition compile_instruction :: "Compiler \<Rightarrow> char \<Rightarrow> error \<times> Compiler + Compiler" where
  "compile_instruction c instruction =
     (if instruction = CHR ''+'' then Inr (emit c Incb)
      else if instruction = CHR ''-'' then Inr (emit c Decb)
      else if instruction = CHR ''>'' then Inr (emit c Incq)
      else if instruction = CHR ''<'' then Inr (emit c Decq)
      else if instruction = CHR ''.'' then Inr (emit c Write_char)
      else if instruction = CHR '','' then Inr (emit c Read_char)
      else if instruction = CHR ''['' then
        (let (label, c1) = next_label c; c2 = push_loop c1 label
         in Inr (emit c2 (Loop_start label)))
      else if instruction = CHR '']'' then
        (case pop_loop c of
           Inl e \<Rightarrow> Inl e
         | Inr (label, c1) \<Rightarrow> Inr (emit c1 (Loop_end label)))
      else Inr c)"

subsection \<open>Counting repeats\<close>

text \<open>
  \<^verbatim>\<open>while (pos < src->length && src->code[pos] == instruction) { count++; pos++; }\<close>
\<close>

lemma unat_succ_below:
  fixes pos :: "'a::len word"
  assumes "pos < len"
  shows "unat (pos + 1) = Suc (unat pos)" and "unat pos < unat len"
  using assms by unat_arith+

function count_repeats_loop :: "Source \<Rightarrow> char \<Rightarrow> cint \<Rightarrow> size_t \<Rightarrow> cint" where
  "count_repeats_loop src instruction count pos =
     (if pos < length_s src \<and> code src ! unat pos = instruction
      then count_repeats_loop src instruction (count + 1) (pos + 1)
      else count)"
  by pat_completeness auto
termination
  by (relation "measure (\<lambda>(src, instruction, count, pos). unat (length_s src) - unat pos)")
     (auto simp: unat_succ_below(1) dest!: unat_succ_below(2))

definition count_repeats :: "Source \<Rightarrow> char \<Rightarrow> cint" where
  "count_repeats src instruction = count_repeats_loop src instruction 0 (position src)"

subsection \<open>Compiling with folding\<close>

definition foldable :: "char \<Rightarrow> bool" where
  "foldable instruction \<longleftrightarrow>
     instruction = CHR ''+'' \<or> instruction = CHR ''-'' \<or>
     instruction = CHR ''>'' \<or> instruction = CHR ''<''"

text \<open>
  \<^verbatim>\<open>compile_optimized\<close>: a run of more than one \<^verbatim>\<open>+ - > <\<close> is written as one
  instruction and the cursor moves on by \<^verbatim>\<open>count - 1\<close> (an \<^verbatim>\<open>int\<close> added to a
  \<^verbatim>\<open>size_t\<close>, so sign-extended: \<open>scast\<close>); everything else goes to
  \<^verbatim>\<open>compile_instruction\<close>.
\<close>

definition compile_optimized ::
    "Compiler \<Rightarrow> Source \<Rightarrow> char \<Rightarrow> error \<times> Compiler + Compiler \<times> Source" where
  "compile_optimized c src instruction =
     (let count = count_repeats src instruction in
      if 1 <s count \<and> foldable instruction then
        Inr (emit c (if instruction = CHR ''+'' then Addb count
                     else if instruction = CHR ''-'' then Subb count
                     else if instruction = CHR ''>'' then Addq count
                     else Subq count),
             src\<lparr>position := position src + scast (count - 1)\<rparr>)
      else
        (case compile_instruction c instruction of
           Inl e \<Rightarrow> Inl e
         | Inr c1 \<Rightarrow> Inr (c1, src)))"

text \<open>
  \<^verbatim>\<open>strchr(s, ch)\<close> is non-null when \<open>ch\<close> occurs in \<open>s\<close>, and also when \<open>ch\<close> is
  the NUL character, which matches the terminator of \<open>s\<close>.
\<close>

definition strchr :: "string \<Rightarrow> char \<Rightarrow> bool" where
  "strchr s ch \<longleftrightarrow> ch \<in> set s \<or> ch = CHR 0x00"

text \<open>The body of the \<^verbatim>\<open>while\<close> loop of \<^verbatim>\<open>compile\<close>, for a cursor below the length.\<close>

definition compile_step :: "Compiler \<Rightarrow> Source \<Rightarrow> error \<times> Compiler + Compiler \<times> Source" where
  "compile_step c src =
     (let ch = code src ! unat (position src) in
      case (if strchr ''+-><.,[]'' ch then compile_optimized c src ch else Inr (c, src)) of
        Inl e \<Rightarrow> Inl e
      | Inr (c1, src1) \<Rightarrow> Inr (c1, src1\<lparr>position := position src1 + 1\<rparr>))"

subsection \<open>Progress of the scan\<close>

lemma sint_nonneg_eq_uint:
  fixes w :: "'a::len word"
  assumes "0 \<le> sint w"
  shows "sint w = uint w"
proof -
  have "sint w < 2 ^ (LENGTH('a) - 1)" by (rule sint_lt)
  also have "\<dots> \<le> (2::int) ^ LENGTH('a)" by (rule power_increasing) simp_all
  finally have "take_bit LENGTH('a) (sint w) = sint w"
    using assms by (simp add: take_bit_int_eq_self)
  then show ?thesis by (simp add: uint_sint)
qed

lemma sint_of_nat_le:
  fixes k :: nat
  assumes "1 <s (of_nat k :: 32 word)"
  shows "sint (of_nat k :: 32 word) \<le> int k"
proof -
  have "0 \<le> sint (of_nat k :: 32 word)"
    using assms by (simp add: word_sless_alt)
  then have "sint (of_nat k :: 32 word) = uint (of_nat k :: 32 word)"
    by (rule sint_nonneg_eq_uint)
  also have "\<dots> = int (unat (of_nat k :: 32 word))"
    by simp
  also have "\<dots> \<le> int k"
    by (simp only: unat_of_nat) simp
  finally show ?thesis .
qed

lemma sint_range32: "- 2147483648 \<le> sint (w :: 32 word) \<and> sint w < 2147483648"
  using sint_ge[of w] sint_lt[of w] by simp

lemma sint_pred32:
  fixes w :: "32 word"
  assumes "0 \<le> sint w"
  shows "sint (w - 1) = sint w - 1"
proof -
  have "sint (w - 1) = signed_take_bit 31 (sint w - 1)"
    by (simp add: sint_word_diff)
  also have "\<dots> = sint w - 1"
    using assms sint_range32[of w] by (intro signed_take_bit_int_eq_self) simp_all
  finally show ?thesis .
qed

lemma unat_scast_nonneg:
  fixes v :: "32 word"
  assumes "0 \<le> sint v"
  shows "unat (scast v :: 64 word) = nat (sint v)"
proof -
  have up: "sint (scast v :: 64 word) = sint v"
    by (rule sint_up_scast) (simp add: is_up)
  then have "sint (scast v :: 64 word) = uint (scast v :: 64 word)"
    using assms by (intro sint_nonneg_eq_uint) simp
  then have "uint (scast v :: 64 word) = sint v"
    using up by simp
  then show ?thesis by (simp only: unat_eq_nat_uint)
qed

lemma unat_add_small:
  fixes a b :: "64 word"
  assumes "unat a + unat b < 2 ^ 64"
  shows "unat (a + b) = unat a + unat b"
  using assms unat_add_lem[of a b] by simp

lemma unat_bound64: "unat (w :: 64 word) < 2 ^ 64"
  using unsigned_less[of w, where 'a = nat] by simp

declare count_repeats_loop.simps [simp del]

lemma count_repeats_loop_bound:
  "\<exists>k. count_repeats_loop src i count pos = count + of_nat k \<and>
       k \<le> unat (length_s src) - unat pos"
proof (induction src i count pos rule: count_repeats_loop.induct)
  case (1 src instruction count pos)
  show ?case
  proof (cases "pos < length_s src \<and> code src ! unat pos = instruction")
    case True
    then obtain k where k: "count_repeats_loop src instruction (count + 1) (pos + 1) = count + 1 + of_nat k"
        "k \<le> unat (length_s src) - unat (pos + 1)"
      using 1 by blast
    have "count_repeats_loop src instruction count pos = count + of_nat (Suc k)"
      using True k(1) by (subst count_repeats_loop.simps) simp
    moreover have "Suc k \<le> unat (length_s src) - unat pos"
      using True k(2) unat_succ_below[of pos "length_s src"] by simp
    ultimately show ?thesis by blast
  next
    case False
    then have "count_repeats_loop src instruction count pos = count + of_nat 0"
      by (subst count_repeats_loop.simps) auto
    then show ?thesis by blast
  qed
qed

text \<open>What \<^verbatim>\<open>compile_optimized\<close> does to the source: it keeps the text and the length,
  and moves the cursor forward, staying below the length.\<close>

lemma compile_optimized_progress:
  assumes lt: "position src < length_s src"
    and step: "compile_optimized c src ch = Inr (c1, src1)"
  shows "code src1 = code src" and "length_s src1 = length_s src"
    and "unat (position src) \<le> unat (position src1)"
    and "unat (position src1) < unat (length_s src)"
proof -
  obtain k where k: "count_repeats src ch = of_nat k"
      "k \<le> unat (length_s src) - unat (position src)"
    using count_repeats_loop_bound[of src ch 0 "position src"]
    by (auto simp: count_repeats_def)
  have below: "unat (position src) < unat (length_s src)"
    using lt by (simp add: word_less_nat_alt)
  show "code src1 = code src" "length_s src1 = length_s src"
    using step by (auto simp: compile_optimized_def Let_def split: if_splits sum.splits)
  show "unat (position src) \<le> unat (position src1)"
    and "unat (position src1) < unat (length_s src)"
  proof (atomize (full), cases "1 <s count_repeats src ch \<and> foldable ch")
    case True
    then have gt: "1 <s (of_nat k :: 32 word)" using k(1) by simp
    then have le: "sint (of_nat k :: 32 word) \<le> int k" by (rule sint_of_nat_le)
    have one: "1 < sint (of_nat k :: 32 word)" using gt by (simp add: word_sless_alt)
    define m where "m = nat (sint (of_nat k :: 32 word) - 1)"
    have m: "unat (scast (of_nat k - 1 :: 32 word) :: 64 word) = m"
      using one by (simp add: m_def unat_scast_nonneg sint_pred32)
    have mk: "unat (position src) + m < unat (length_s src)"
      using le one k(2) below by (simp add: m_def)
    have "unat (length_s src) < 2 ^ 64" by (rule unat_bound64)
    then have "unat (position src + scast (of_nat k - 1 :: 32 word)) = unat (position src) + m"
      using mk m by (simp add: unat_add_small)
    moreover have "position src1 = position src + scast (of_nat k - 1 :: 32 word)"
      using step True k(1) by (auto simp: compile_optimized_def Let_def)
    ultimately show "unat (position src) \<le> unat (position src1) \<and>
        unat (position src1) < unat (length_s src)"
      using mk by simp
  next
    case False
    then have "src1 = src"
      using step by (auto simp: compile_optimized_def Let_def split: sum.splits)
    then show "unat (position src) \<le> unat (position src1) \<and>
        unat (position src1) < unat (length_s src)"
      using below by simp
  qed
qed

lemma compile_step_progress:
  assumes lt: "position src < length_s src"
    and step: "compile_step c src = Inr (c1, src1)"
  shows "code src1 = code src" and "length_s src1 = length_s src"
    and "unat (position src) < unat (position src1)"
    and "unat (position src1) \<le> unat (length_s src)"
proof -
  obtain src0 where src0: "src1 = src0\<lparr>position := position src0 + 1\<rparr>"
      "code src0 = code src" "length_s src0 = length_s src"
      "unat (position src) \<le> unat (position src0)"
      "unat (position src0) < unat (length_s src)"
  proof (cases "strchr ''+-><.,[]'' (code src ! unat (position src))")
    case True
    then obtain s0 where s0: "compile_optimized c src (code src ! unat (position src)) = Inr (c1, s0)"
        "src1 = s0\<lparr>position := position s0 + 1\<rparr>"
      using step by (auto simp: compile_step_def Let_def split: sum.splits)
    show ?thesis
      using that[OF s0(2)] compile_optimized_progress[OF lt s0(1)] by blast
  next
    case False
    then have "src1 = src\<lparr>position := position src + 1\<rparr>"
      using step by (auto simp: compile_step_def Let_def)
    then show ?thesis
      using that[of src] lt by (simp add: word_less_nat_alt)
  qed
  have "position src0 < length_s src0"
    using src0(3,5) by (simp add: word_less_nat_alt)
  then have "unat (position src0 + 1) = Suc (unat (position src0))"
    by (rule unat_succ_below(1))
  then show "code src1 = code src" "length_s src1 = length_s src"
    "unat (position src) < unat (position src1)"
    "unat (position src1) \<le> unat (length_s src)"
    using src0 by simp_all
qed

function compile_loop :: "Compiler \<Rightarrow> Source \<Rightarrow> error \<times> Compiler + Compiler \<times> Source" where
  "compile_loop c src =
     (if position src < length_s src then
        (case compile_step c src of
           Inl e \<Rightarrow> Inl e
         | Inr (c1, src1) \<Rightarrow> compile_loop c1 src1)
      else Inr (c, src))"
  by pat_completeness auto
termination
proof (relation "measure (\<lambda>(c, src). unat (length_s src) - unat (position src))")
  show "wf (measure (\<lambda>(c :: Compiler, src). unat (length_s src) - unat (position src)))"
    by simp
next
  fix c :: Compiler and src :: Source and x2 and x1 :: Compiler and y :: Source
  assume "position src < length_s src" and "compile_step c src = Inr x2" and "(x1, y) = x2"
  then have "compile_step c src = Inr (x1, y)" and lt: "position src < length_s src"
    by simp_all
  from compile_step_progress[OF lt this(1)]
  show "((x1, y), c, src) \<in> measure (\<lambda>(c, src). unat (length_s src) - unat (position src))"
    by simp
qed

subsection \<open>The whole program\<close>

text \<open>
  \<^verbatim>\<open>compile\<close>: header, the loop, then the check for an open loop and the footer.
\<close>

definition compile :: "Compiler \<Rightarrow> Source \<Rightarrow> error \<times> Compiler + Compiler \<times> Source" where
  "compile c src =
     (case compile_loop (emit_header c) src of
        Inl e \<Rightarrow> Inl e
      | Inr (c1, src1) \<Rightarrow>
          if 0 \<le>s loop_stack_top c1 then Inl (UnmatchedOpen, c1)
          else Inr (emit_footer c1, src1))"

text \<open>
  \<^verbatim>\<open>read_source\<close>: the bytes of the file, followed by a NUL; the length is the
  number of bytes of the file and the cursor starts at 0.
\<close>

definition read_source :: "char list \<Rightarrow> Source" where
  "read_source bytes =
     \<lparr>code = bytes @ [CHR 0x00], length_s = of_nat (length bytes), position = 0\<rparr>"

text \<open>\<^verbatim>\<open>main\<close>, for the bytes of the input file.\<close>

definition bfc_main :: "char list \<Rightarrow> error \<times> Compiler + Compiler \<times> Source" where
  "bfc_main bytes = compile create_compiler (read_source bytes)"

section \<open>The vocabulary of the properties\<close>

text \<open>
  The definitions the statements below are written in: the loop stack read as a list, the
  design's scanner and emitter, the meaning of the emitted arithmetic, the bracket
  structure of a source, and the states at the head of the loop.
\<close>

subsection \<open>The loop stack as a list\<close>

text \<open>
  The labels on the stack, innermost first: the cells of the array up to the top index.
  \<open>stack_ok\<close> is the invariant of the array: the top index is at least -1 and below
  the capacity, and the array has as many cells as the capacity says.
\<close>

definition stack_of :: "Compiler \<Rightarrow> cint list" where
  "stack_of c = rev (take (nat (sint (loop_stack_top c) + 1)) (loop_stack c))"

definition stack_ok :: "Compiler \<Rightarrow> bool" where
  "stack_ok c \<longleftrightarrow>
     - 1 \<le> sint (loop_stack_top c) \<and> sint (loop_stack_top c) < sint (loop_stack_size c) \<and>
     0 < sint (loop_stack_size c) \<and> length (loop_stack c) = nat (sint (loop_stack_size c))"

subsection \<open>The compiler as a scanner and an emitter\<close>

text \<open>
  A functional description of what the C loop computes, in the words of the design: a
  scanner that turns the bytes into folded operations (an instruction and a repeat
  count), and an emitter that consumes them with a label counter and a stack of open
  loops. The C functions are proved equal to it below (\<open>compile_loop_pipeline\<close>,
  \<open>bfc_main_pipeline\<close>) for sources of fewer than \<open>2 ^ 30\<close> bytes, where no \<^verbatim>\<open>int\<close>
  of the program overflows.
\<close>

datatype instruction =
  IncCell | DecCell | MoveRight | MoveLeft | Output | Input | LoopOpen | LoopClose

definition classify :: "char \<Rightarrow> instruction option" where
  "classify ch =
     (if ch = CHR ''+'' then Some IncCell
      else if ch = CHR ''-'' then Some DecCell
      else if ch = CHR ''>'' then Some MoveRight
      else if ch = CHR ''<'' then Some MoveLeft
      else if ch = CHR ''.'' then Some Output
      else if ch = CHR '','' then Some Input
      else if ch = CHR ''['' then Some LoopOpen
      else if ch = CHR '']'' then Some LoopClose
      else None)"

type_synonym folded_op = "instruction \<times> nat"

function scan :: "char list \<Rightarrow> folded_op list" where
  "scan [] = []"
| "scan (ch # rest) =
     (case classify ch of
        None \<Rightarrow> scan rest
      | Some i \<Rightarrow>
          if foldable ch
          then (i, Suc (length (takeWhile (\<lambda>x. x = ch) rest))) # scan (dropWhile (\<lambda>x. x = ch) rest)
          else (i, 1) # scan rest)"
  by pat_completeness auto
termination
  by (relation "measure length") (auto simp: length_dropWhile_le less_Suc_eq_le)

record emitter =
  em_out :: "asm list"
  em_label :: cint
  em_stack :: "cint list"

fun emit_op :: "emitter \<Rightarrow> folded_op \<Rightarrow> error \<times> emitter + emitter" where
  "emit_op e (IncCell, n) = Inr (e\<lparr>em_out := em_out e @ [if n = 1 then Incb else Addb (of_nat n)]\<rparr>)"
| "emit_op e (DecCell, n) = Inr (e\<lparr>em_out := em_out e @ [if n = 1 then Decb else Subb (of_nat n)]\<rparr>)"
| "emit_op e (MoveRight, n) = Inr (e\<lparr>em_out := em_out e @ [if n = 1 then Incq else Addq (of_nat n)]\<rparr>)"
| "emit_op e (MoveLeft, n) = Inr (e\<lparr>em_out := em_out e @ [if n = 1 then Decq else Subq (of_nat n)]\<rparr>)"
| "emit_op e (Output, n) = Inr (e\<lparr>em_out := em_out e @ [Write_char]\<rparr>)"
| "emit_op e (Input, n) = Inr (e\<lparr>em_out := em_out e @ [Read_char]\<rparr>)"
| "emit_op e (LoopOpen, n) =
     Inr \<lparr>em_out = em_out e @ [Loop_start (em_label e)], em_label = em_label e + 1,
          em_stack = em_label e # em_stack e\<rparr>"
| "emit_op e (LoopClose, n) =
     (case em_stack e of
        [] \<Rightarrow> Inl (UnmatchedClose, e)
      | l # ls \<Rightarrow> Inr (e\<lparr>em_out := em_out e @ [Loop_end l], em_stack := ls\<rparr>))"

fun emit_ops :: "emitter \<Rightarrow> folded_op list \<Rightarrow> error \<times> emitter + emitter" where
  "emit_ops e [] = Inr e"
| "emit_ops e (x # xs) = (case emit_op e x of Inl err \<Rightarrow> Inl err | Inr e1 \<Rightarrow> emit_ops e1 xs)"

definition begin_emitter :: emitter where
  "begin_emitter = \<lparr>em_out = [Header], em_label = 0, em_stack = []\<rparr>"

definition end_emitter :: "emitter \<Rightarrow> error \<times> emitter + emitter" where
  "end_emitter e =
     (if em_stack e \<noteq> [] then Inl (UnmatchedOpen, e) else Inr (e\<lparr>em_out := em_out e @ [Footer]\<rparr>))"

definition pipeline :: "char list \<Rightarrow> error \<times> emitter + emitter" where
  "pipeline bytes =
     (case emit_ops begin_emitter (scan bytes) of Inl err \<Rightarrow> Inl err | Inr e \<Rightarrow> end_emitter e)"

definition emitter_of :: "Compiler \<Rightarrow> emitter" where
  "emitter_of c = \<lparr>em_out = output_f c, em_label = label_counter c, em_stack = stack_of c\<rparr>"

definition remaining :: "Source \<Rightarrow> char list" where
  "remaining src = drop (unat (position src)) (take (unat (length_s src)) (code src))"

subsection \<open>The whole loop\<close>

text \<open>The invariant of the loop, and what the loop returns.\<close>

definition loop_inv :: "Compiler \<Rightarrow> Source \<Rightarrow> bool" where
  "loop_inv c src \<longleftrightarrow>
     unat (length_s src) \<le> length (code src) \<and> unat (length_s src) < 2 ^ 30 \<and>
     position src \<le> length_s src \<and> stack_ok c \<and>
     length (stack_of c) + length (remaining src) \<le> unat (length_s src)"

subsection \<open>Termination of the scan\<close>

text \<open>The loop of \<^verbatim>\<open>compile\<close> with a bound on the number of iterations: \<open>None\<close> when the
  bound is used up before the loop ends.\<close>

fun compile_loop_fuel ::
    "nat \<Rightarrow> Compiler \<Rightarrow> Source \<Rightarrow> (error \<times> Compiler + Compiler \<times> Source) option" where
  "compile_loop_fuel 0 c src = None"
| "compile_loop_fuel (Suc k) c src =
     (if position src < length_s src then
        (case compile_step c src of
           Inl e \<Rightarrow> Some (Inl e)
         | Inr (c1, src1) \<Rightarrow> compile_loop_fuel k c1 src1)
      else Some (Inr (c, src)))"

subsection \<open>Folding of runs\<close>

text \<open>What the compiler writes for a run of \<open>n\<close> bytes \<open>ch\<close> (one of \<^verbatim>\<open>+ - > <\<close>): the unit
  instruction of \<^verbatim>\<open>compile_instruction\<close> for a run of one, the counted instruction of
  \<^verbatim>\<open>compile_optimized\<close> otherwise.\<close>

definition folded_asm :: "char \<Rightarrow> nat \<Rightarrow> asm" where
  "folded_asm ch n =
     (if n = 1 then
        (if ch = CHR ''+'' then Incb else if ch = CHR ''-'' then Decb
         else if ch = CHR ''>'' then Incq else Decq)
      else
        (if ch = CHR ''+'' then Addb (of_nat n) else if ch = CHR ''-'' then Subb (of_nat n)
         else if ch = CHR ''>'' then Addq (of_nat n) else Subq (of_nat n)))"

text \<open>The emitter of the design, in its words: for a folded operation \<open>(I, n)\<close> on the cell
  "a single add/subtract-by-\<open>n\<close> instruction against the byte at the address held by the
  pointer register", on the pointer "a single add/subtract-by-\<open>n\<close> to the pointer register".\<close>

definition spec_add_sub_by_n :: "char \<Rightarrow> nat \<Rightarrow> asm" where
  "spec_add_sub_by_n ch n =
     (if ch = CHR ''+'' then Addb (of_nat n) else if ch = CHR ''-'' then Subb (of_nat n)
      else if ch = CHR ''>'' then Addq (of_nat n) else Subq (of_nat n))"

text \<open>A source as \<^verbatim>\<open>read_source\<close> leaves it, with the cursor moved to byte \<open>p\<close>.\<close>

definition source_at :: "char list \<Rightarrow> nat \<Rightarrow> Source" where
  "source_at bytes p = (read_source bytes)\<lparr>position := of_nat p\<rparr>"

subsection \<open>The effect of the emitted arithmetic\<close>

text \<open>
  The meaning of the eight instructions the compiler writes for \<^verbatim>\<open>+ - > <\<close>, on the two
  things they touch: the pointer register \<^verbatim>\<open>%r12\<close> and the bytes of memory. The design
  gives the arithmetic: a cell is one byte and wraps modulo 256, the pointer moves by
  exact integers (no bounds are checked). \<^verbatim>\<open>addb\<close> and \<^verbatim>\<open>subb\<close> take the low byte of
  their immediate operand. Every other block (input, output, jumps, header, footer) is
  outside this meaning: \<open>None\<close>.
\<close>

record machine =
  ptr :: int
  mem :: "int \<Rightarrow> 8 word"

definition add_cell :: "8 word \<Rightarrow> machine \<Rightarrow> machine" where
  "add_cell d m = m\<lparr>mem := (mem m)(ptr m := mem m (ptr m) + d)\<rparr>"

definition move_ptr :: "int \<Rightarrow> machine \<Rightarrow> machine" where
  "move_ptr d m = m\<lparr>ptr := ptr m + d\<rparr>"

fun exec :: "asm \<Rightarrow> machine \<Rightarrow> machine option" where
  "exec Incb m = Some (add_cell 1 m)"
| "exec Decb m = Some (add_cell (- 1) m)"
| "exec Incq m = Some (move_ptr 1 m)"
| "exec Decq m = Some (move_ptr (- 1) m)"
| "exec (Addb w) m = Some (add_cell (ucast w) m)"
| "exec (Subb w) m = Some (add_cell (- ucast w) m)"
| "exec (Addq w) m = Some (move_ptr (sint w) m)"
| "exec (Subq w) m = Some (move_ptr (- sint w) m)"
| "exec _ m = None"

fun run_asm :: "asm list \<Rightarrow> machine \<Rightarrow> machine option" where
  "run_asm [] m = Some m"
| "run_asm (a # as) m = (case exec a m of None \<Rightarrow> None | Some m1 \<Rightarrow> run_asm as m1)"

text \<open>One unit operation of the source language, and a run of \<open>n\<close> of them taken as one
  addition or subtraction by \<open>n\<close>.\<close>

definition unit_effect :: "char \<Rightarrow> machine \<Rightarrow> machine" where
  "unit_effect ch m =
     (if ch = CHR ''+'' then add_cell 1 m else if ch = CHR ''-'' then add_cell (- 1) m
      else if ch = CHR ''>'' then move_ptr 1 m else if ch = CHR ''<'' then move_ptr (- 1) m
      else m)"

definition delta_effect :: "char \<Rightarrow> nat \<Rightarrow> machine \<Rightarrow> machine" where
  "delta_effect ch n m =
     (if ch = CHR ''+'' then add_cell (of_nat n) m else if ch = CHR ''-'' then add_cell (- of_nat n) m
      else if ch = CHR ''>'' then move_ptr (int n) m else if ch = CHR ''<'' then move_ptr (- int n) m
      else m)"

text \<open>The unfolded form the design compares with: no run is counted, every byte goes to
  \<^verbatim>\<open>compile_instruction\<close> on its own ("emitting each unit operation individually").\<close>

fun emit_unfolded :: "Compiler \<Rightarrow> char list \<Rightarrow> error \<times> Compiler + Compiler" where
  "emit_unfolded c [] = Inr c"
| "emit_unfolded c (ch # rest) =
     (case compile_instruction c ch of Inl e \<Rightarrow> Inl e | Inr c1 \<Rightarrow> emit_unfolded c1 rest)"

subsection \<open>Brackets, labels and the loop stack\<close>

text \<open>
  The bracket structure of a byte sequence, read off the bytes alone: the number of
  \<^verbatim>\<open>[\<close> seen so far, which is the label the next \<^verbatim>\<open>[\<close> gets, and the labels of the loops
  that are open and not yet closed, innermost first. \<open>None\<close>: a \<^verbatim>\<open>]\<close> with no open loop.
\<close>

fun brackets :: "nat \<times> nat list \<Rightarrow> char list \<Rightarrow> (nat \<times> nat list) option" where
  "brackets s [] = Some s"
| "brackets (k, st) (ch # rest) =
     (if ch = CHR ''['' then brackets (Suc k, k # st) rest
      else if ch = CHR '']'' then
        (case st of [] \<Rightarrow> None | l # ls \<Rightarrow> brackets (k, ls) rest)
      else brackets (k, st) rest)"

text \<open>The same on folded operations.\<close>

fun brackets_ops :: "nat \<times> nat list \<Rightarrow> folded_op list \<Rightarrow> (nat \<times> nat list) option" where
  "brackets_ops s [] = Some s"
| "brackets_ops (k, st) ((i, n) # ops) =
     (if i = LoopOpen then brackets_ops (Suc k, k # st) ops
      else if i = LoopClose then
        (case st of [] \<Rightarrow> None | l # ls \<Rightarrow> brackets_ops (k, ls) ops)
      else brackets_ops (k, st) ops)"

definition nesting_depth :: "char list \<Rightarrow> int" where
  "nesting_depth bytes = int (count_list bytes CHR ''['') - int (count_list bytes CHR '']'')"

fun start_labels :: "asm list \<Rightarrow> cint list" where
  "start_labels [] = []"
| "start_labels (Loop_start l # out) = l # start_labels out"
| "start_labels (a # out) = start_labels out"

fun end_labels :: "asm list \<Rightarrow> cint list" where
  "end_labels [] = []"
| "end_labels (Loop_end l # out) = l # end_labels out"
| "end_labels (a # out) = end_labels out"

text \<open>The decimal numeral is read back by the usual positional sum, so distinct numbers
  print as distinct texts.\<close>

definition digit_value :: "char \<Rightarrow> nat" where
  "digit_value ch = of_char ch - 48"

definition dec_value :: "string \<Rightarrow> nat" where
  "dec_value s = foldl (\<lambda>a ch. 10 * a + digit_value ch) 0 s"

subsection \<open>The loop stack at every scan position\<close>

text \<open>
  The states of the program at the head of its \<^verbatim>\<open>while\<close> loop ("at every scan
  position"), for the bytes of a file: the state after the header, and the state after
  each iteration that returns.
\<close>

inductive scan_state :: "char list \<Rightarrow> Compiler \<Rightarrow> Source \<Rightarrow> bool" for bytes where
  start: "scan_state bytes (emit_header create_compiler) (read_source bytes)"
| step: "scan_state bytes c src \<Longrightarrow> position src < length_s src \<Longrightarrow>
         compile_step c src = Inr (c1, src1) \<Longrightarrow> scan_state bytes c1 src1"

text \<open>The invariant of the loop head, for the bytes of a file.\<close>

definition at_cursor :: "char list \<Rightarrow> Compiler \<Rightarrow> Source \<Rightarrow> bool" where
  "at_cursor bytes c src \<longleftrightarrow>
     (\<exists>p\<le>length bytes. src = source_at bytes p \<and> stack_ok c \<and>
        length (stack_of c) \<le> p \<and>
        (\<exists>k st. brackets (0, []) (take p bytes) = Some (k, st) \<and>
           label_counter c = of_nat k \<and> stack_of c = map of_nat st))"

subsection \<open>Bytes that are not instructions\<close>

text \<open>The eight recognized characters.\<close>

definition is_instruction :: "char \<Rightarrow> bool" where
  "is_instruction ch \<longleftrightarrow> ch \<in> set ''+-><.,[]''"

text \<open>What a run of the program leaves to be observed: whether it exited with an error, and
  the text in the output file.\<close>

definition emission :: "error \<times> Compiler + Compiler \<times> Source \<Rightarrow> error option \<times> string" where
  "emission r =
     (case r of
        Inl (e, c) \<Rightarrow> (Some e, emitted_text (output_f c))
      | Inr (c, src) \<Rightarrow> (None, emitted_text (output_f c)))"

definition emission_of :: "error \<times> emitter + emitter \<Rightarrow> error option \<times> string" where
  "emission_of r =
     (case r of
        Inl (e, a) \<Rightarrow> (Some e, emitted_text (em_out a))
      | Inr a \<Rightarrow> (None, emitted_text (em_out a)))"

text \<open>
  \<open>no_split D prev gap bytes\<close>: removing the bytes that satisfy \<open>D\<close> brings no two equal
  bytes \<^verbatim>\<open>+ - > <\<close> together. \<open>prev\<close> is the last byte kept so far and \<open>gap\<close> tells
  whether a byte has been removed since.
\<close>

fun no_split :: "(char \<Rightarrow> bool) \<Rightarrow> char option \<Rightarrow> bool \<Rightarrow> char list \<Rightarrow> bool" where
  "no_split D prev gap [] = True"
| "no_split D prev gap (x # xs) =
     (if D x then no_split D prev True xs
      else \<not> (gap \<and> prev = Some x \<and> foldable x) \<and> no_split D (Some x) False xs)"

section \<open>Proofs\<close>

subsection \<open>The loop stack as a list\<close>

lemma sint_add1:
  fixes w :: "32 word"
  assumes "sint w < 2147483647"
  shows "sint (w + 1) = sint w + 1"
proof -
  have "sint (w + 1) = signed_take_bit 31 (sint w + 1)"
    by (simp add: sint_word_add)
  also have "\<dots> = sint w + 1"
    using assms sint_range32[of w] by (intro signed_take_bit_int_eq_self) simp_all
  finally show ?thesis .
qed

lemma sint_sub1:
  fixes w :: "32 word"
  assumes "- 2147483648 < sint w"
  shows "sint (w - 1) = sint w - 1"
proof -
  have "sint (w - 1) = signed_take_bit 31 (sint w - 1)"
    by (simp add: sint_word_diff)
  also have "\<dots> = sint w - 1"
    using assms sint_range32[of w] by (intro signed_take_bit_int_eq_self) simp_all
  finally show ?thesis .
qed

lemma sint_double:
  fixes w :: "32 word"
  assumes "0 \<le> sint w" and "sint w < 1073741824"
  shows "sint (w * 2) = 2 * sint w"
proof -
  have "sint (w * 2) = signed_take_bit 31 (sint w * sint (2 :: 32 word))"
    by (simp only: sint_word_mult) simp
  also have "sint (2 :: 32 word) = 2" by simp
  also have "signed_take_bit 31 (sint w * 2) = sint w * 2"
    using assms by (intro signed_take_bit_int_eq_self) simp_all
  finally show ?thesis by simp
qed

lemma stack_of_length:
  assumes "stack_ok c"
  shows "length (stack_of c) = nat (sint (loop_stack_top c) + 1)"
  using assms by (auto simp: stack_of_def stack_ok_def)

lemma push_loop_stack:
  assumes ok: "stack_ok c" and small: "length (stack_of c) < 2 ^ 30"
  shows "stack_ok (push_loop c l)"
    and "stack_of (push_loop c l) = l # stack_of c"
    and "output_f (push_loop c l) = output_f c"
    and "label_counter (push_loop c l) = label_counter c"
proof -
  define t where "t = sint (loop_stack_top c)"
  define z where "z = sint (loop_stack_size c)"
  have tz: "- 1 \<le> t" "t < z" "0 < z" "length (loop_stack c) = nat z"
    using ok by (simp_all add: stack_ok_def t_def z_def)
  have d: "t + 1 < 1073741824"
    using small stack_of_length[OF ok] tz by (simp add: t_def)
  have top1: "sint (loop_stack_top c + 1) = t + 1"
    using d by (simp add: sint_add1 t_def)
  have z1: "sint (loop_stack_size c - 1) = z - 1"
    using tz by (simp add: sint_sub1 z_def)
  show "output_f (push_loop c l) = output_f c"
    and "label_counter (push_loop c l) = label_counter c"
    by (simp_all add: push_loop_def Let_def)
  show "stack_ok (push_loop c l)" and "stack_of (push_loop c l) = l # stack_of c"
  proof (atomize (full), cases "loop_stack_size c - 1 \<le>s loop_stack_top c")
    case True
    then have eq: "t = z - 1"
      using tz z1 by (simp add: word_sle_eq t_def)
    then have z2: "sint (loop_stack_size c * 2) = 2 * z"
      using d tz by (simp add: sint_double z_def)
    have arr: "realloc (loop_stack c) (nat (2 * z)) = loop_stack c @ replicate (nat z) 0"
      using tz by (simp add: realloc_def nat_mult_distrib)
    have upd: "(loop_stack c @ replicate (nat z) 0)[nat z := l]
        = loop_stack c @ l # replicate (nat z - 1) 0"
      using tz by (cases "nat z") (simp_all add: list_update_append)
    have "take (nat (t + 1)) (loop_stack c) = loop_stack c"
      using eq tz by simp
    then have old: "stack_of c = rev (loop_stack c)"
      by (simp add: stack_of_def t_def)
    have new: "push_loop c l = c\<lparr>loop_stack_size := loop_stack_size c * 2,
        loop_stack_top := loop_stack_top c + 1,
        loop_stack := loop_stack c @ l # replicate (nat z - 1) 0\<rparr>"
      using True top1 z2 arr upd eq by (simp add: push_loop_def Let_def)
    have top2: "sint (loop_stack_top c + 1) = z"
      using top1 eq by simp
    have "take (nat (z + 1)) (loop_stack c @ l # replicate (nat z - 1) 0) = loop_stack c @ [l]"
      using tz by (simp add: nat_add_distrib)
    then have "stack_of (push_loop c l) = l # stack_of c"
      unfolding new old by (simp add: stack_of_def top2)
    moreover have "stack_ok (push_loop c l)"
      unfolding new using tz z2 top2 by (simp add: stack_ok_def)
    ultimately show "stack_ok (push_loop c l) \<and> stack_of (push_loop c l) = l # stack_of c"
      by simp
  next
    case False
    then have lt: "t < z - 1"
      using tz z1 by (simp add: word_sle_eq t_def)
    have new: "push_loop c l = c\<lparr>loop_stack_top := loop_stack_top c + 1,
        loop_stack := (loop_stack c)[nat (t + 1) := l]\<rparr>"
      using False top1 by (simp add: push_loop_def Let_def)
    have "take (Suc (nat (t + 1))) ((loop_stack c)[nat (t + 1) := l])
        = take (nat (t + 1)) (loop_stack c) @ [l]"
      using lt tz by (simp add: take_Suc_conv_app_nth)
    moreover have "nat (t + 1 + 1) = Suc (nat (t + 1))"
      using tz by simp
    ultimately show "stack_ok (push_loop c l) \<and> stack_of (push_loop c l) = l # stack_of c"
      using tz lt top1 unfolding new
      by (auto simp: stack_ok_def stack_of_def t_def z_def)
  qed
qed

lemma pop_loop_stack:
  assumes ok: "stack_ok c"
  shows "stack_of c = [] \<Longrightarrow> pop_loop c = Inl (UnmatchedClose, c)"
    and "stack_of c = l # ls \<Longrightarrow>
      \<exists>c1. pop_loop c = Inr (l, c1) \<and> stack_ok c1 \<and> stack_of c1 = ls \<and>
        output_f c1 = output_f c \<and> label_counter c1 = label_counter c"
proof -
  define t where "t = sint (loop_stack_top c)"
  define z where "z = sint (loop_stack_size c)"
  have tz: "- 1 \<le> t" "t < z" "0 < z" "length (loop_stack c) = nat z"
    using ok by (simp_all add: stack_ok_def t_def z_def)
  show "pop_loop c = Inl (UnmatchedClose, c)" if "stack_of c = []"
  proof -
    have "t + 1 \<le> 0" using that tz by (auto simp: stack_of_def t_def z_def)
    then show ?thesis by (simp add: pop_loop_def word_sless_alt t_def)
  qed
  show "\<exists>c1. pop_loop c = Inr (l, c1) \<and> stack_ok c1 \<and> stack_of c1 = ls \<and>
        output_f c1 = output_f c \<and> label_counter c1 = label_counter c"
    if "stack_of c = l # ls"
  proof -
    have pos: "0 \<le> t" using that tz by (cases "t = - 1") (auto simp: stack_of_def t_def)
    have "nat (t + 1) = Suc (nat t)" using pos by simp
    then have "take (nat (t + 1)) (loop_stack c) = take (nat t) (loop_stack c) @ [loop_stack c ! nat t]"
      using tz pos by (simp add: take_Suc_conv_app_nth)
    then have hd: "l = loop_stack c ! nat t" "ls = rev (take (nat t) (loop_stack c))"
      using that by (simp_all add: stack_of_def t_def)
    have t1: "sint (loop_stack_top c - 1) = t - 1"
      using pos by (simp add: sint_sub1 t_def)
    have "pop_loop c = Inr (l, c\<lparr>loop_stack_top := loop_stack_top c - 1\<rparr>)"
      using pos hd by (simp add: pop_loop_def word_sless_alt t_def)
    moreover have "stack_ok (c\<lparr>loop_stack_top := loop_stack_top c - 1\<rparr>)"
      using tz pos t1 by (simp add: stack_ok_def t_def z_def)
    moreover have "stack_of (c\<lparr>loop_stack_top := loop_stack_top c - 1\<rparr>) = ls"
      using hd t1 by (simp add: stack_of_def)
    ultimately show ?thesis by simp
  qed
qed

subsection \<open>The compiler as a scanner and an emitter\<close>

lemma emit_fields [simp]:
  "output_f (emit c a) = output_f c @ [a]"
  "label_counter (emit c a) = label_counter c"
  "stack_of (emit c a) = stack_of c"
  by (simp_all add: emit_def stack_of_def)

lemma emitter_of_emit [simp]:
  "emitter_of (emit c a) = (emitter_of c)\<lparr>em_out := em_out (emitter_of c) @ [a]\<rparr>"
  by (simp add: emitter_of_def)

lemma stack_ok_emit [simp]: "stack_ok (emit c a) = stack_ok c"
  by (simp add: emit_def stack_ok_def)

lemma classify_cases:
  "classify ch = Some i \<Longrightarrow>
     (i = IncCell \<and> ch = CHR ''+'') \<or> (i = DecCell \<and> ch = CHR ''-'') \<or>
     (i = MoveRight \<and> ch = CHR ''>'') \<or> (i = MoveLeft \<and> ch = CHR ''<'') \<or>
     (i = Output \<and> ch = CHR ''.'') \<or> (i = Input \<and> ch = CHR '','') \<or>
     (i = LoopOpen \<and> ch = CHR ''['') \<or> (i = LoopClose \<and> ch = CHR '']'')"
  by (simp add: classify_def split: if_splits)

lemma classify_None:
  "classify ch = None \<longleftrightarrow> ch \<notin> set ''+-><.,[]''"
  by (simp add: classify_def)

lemma compile_instruction_other:
  assumes "classify ch = None"
  shows "compile_instruction c ch = Inr c"
  using assms by (simp add: compile_instruction_def classify_def split: if_splits)

lemma compile_instruction_simps:
  "compile_instruction c CHR ''+'' = Inr (emit c Incb)"
  "compile_instruction c CHR ''-'' = Inr (emit c Decb)"
  "compile_instruction c CHR ''>'' = Inr (emit c Incq)"
  "compile_instruction c CHR ''<'' = Inr (emit c Decq)"
  "compile_instruction c CHR ''.'' = Inr (emit c Write_char)"
  "compile_instruction c CHR '','' = Inr (emit c Read_char)"
  "compile_instruction c CHR ''['' =
     Inr (emit (push_loop (c\<lparr>label_counter := label_counter c + 1\<rparr>) (label_counter c))
            (Loop_start (label_counter c)))"
  "compile_instruction c CHR '']'' =
     (case pop_loop c of Inl e \<Rightarrow> Inl e | Inr (label, c1) \<Rightarrow> Inr (emit c1 (Loop_end label)))"
  by (simp_all add: compile_instruction_def next_label_def)

lemma compile_instruction_abs:
  assumes ok: "stack_ok c" and small: "length (stack_of c) < 2 ^ 30"
    and cl: "classify ch = Some i"
  shows "case emit_op (emitter_of c) (i, 1) of
           Inl (e, a) \<Rightarrow> compile_instruction c ch = Inl (e, c)
         | Inr a \<Rightarrow> \<exists>c1. compile_instruction c ch = Inr c1 \<and> emitter_of c1 = a \<and> stack_ok c1"
proof -
  from classify_cases[OF cl] show ?thesis
  proof (elim disjE conjE, goal_cases)
    case 7
    let ?c1 = "c\<lparr>label_counter := label_counter c + 1\<rparr>"
    have ok1: "stack_ok ?c1" and st1: "stack_of ?c1 = stack_of c"
      using ok by (simp_all add: stack_ok_def stack_of_def)
    have small1: "length (stack_of ?c1) < 2 ^ 30" using small st1 by simp
    note p = push_loop_stack[OF ok1 small1, of "label_counter c"]
    have "emitter_of (emit (push_loop ?c1 (label_counter c)) (Loop_start (label_counter c)))
        = \<lparr>em_out = output_f c @ [Loop_start (label_counter c)],
           em_label = label_counter c + 1, em_stack = label_counter c # stack_of c\<rparr>"
      using p st1 by (simp add: emitter_of_def)
    then show ?thesis
      using 7 p(1) by (simp add: emitter_of_def compile_instruction_simps)
  next
    case 8
    show ?thesis
    proof (cases "stack_of c")
      case Nil
      then show ?thesis
        using 8 pop_loop_stack(1)[OF ok Nil]
        by (simp add: compile_instruction_simps emitter_of_def)
    next
      case (Cons l ls)
      then obtain c1 where c1: "pop_loop c = Inr (l, c1)" "stack_ok c1" "stack_of c1 = ls"
          "output_f c1 = output_f c" "label_counter c1 = label_counter c"
        using pop_loop_stack(2)[OF ok Cons] by blast
      then show ?thesis
        using 8 Cons by (simp add: compile_instruction_simps emitter_of_def)
    qed
  qed (use ok in \<open>simp_all add: compile_instruction_simps\<close>)
qed

subsection \<open>One iteration of the C loop is one step of the scanner and the emitter\<close>

lemma remaining_Cons:
  assumes wf: "unat (length_s src) \<le> length (code src)"
    and lt: "position src < length_s src"
  shows "remaining src = code src ! unat (position src)
           # drop (Suc (unat (position src))) (take (unat (length_s src)) (code src))"
proof -
  have "unat (position src) < length (take (unat (length_s src)) (code src))"
    using wf lt by (simp add: word_less_nat_alt)
  then show ?thesis
    unfolding remaining_def by (simp add: Cons_nth_drop_Suc[symmetric])
qed

lemma remaining_Nil:
  assumes "\<not> position src < length_s src"
  shows "remaining src = []"
  using assms by (simp add: remaining_def word_less_nat_alt)

lemma count_repeats_loop_exact:
  assumes wf: "unat (length_s src) \<le> length (code src)"
  shows "count_repeats_loop src i count pos = count +
     of_nat (length (takeWhile (\<lambda>x. x = i) (drop (unat pos) (take (unat (length_s src)) (code src)))))"
  using wf
proof (induction src i count pos rule: count_repeats_loop.induct)
  case (1 src instruction count pos)
  let ?L = "take (unat (length_s src)) (code src)"
  show ?case
  proof (cases "pos < length_s src")
    case lt: True
    then have len: "unat pos < length ?L"
      using "1.prems" by (simp add: word_less_nat_alt)
    have dr: "drop (unat pos) ?L = code src ! unat pos # drop (unat (pos + 1)) ?L"
      using len unat_succ_below(1)[OF lt] by (simp add: Cons_nth_drop_Suc[symmetric])
    show ?thesis
    proof (cases "code src ! unat pos = instruction")
      case True
      then show ?thesis
        using lt "1.IH" "1.prems" dr by (subst count_repeats_loop.simps) simp
    next
      case False
      then show ?thesis
        using dr by (subst count_repeats_loop.simps) simp
    qed
  next
    case False
    then have "drop (unat pos) ?L = []"
      by (simp add: word_less_nat_alt)
    then show ?thesis
      using False by (subst count_repeats_loop.simps) simp
  qed
qed

lemma sint_of_nat_small:
  assumes "n < 2 ^ 31"
  shows "sint (of_nat n :: 32 word) = int n"
proof -
  have "sint (of_nat n :: 32 word) = signed_take_bit 31 (int n)"
    by (simp add: signed_of_nat)
  also have "\<dots> = int n"
    using assms by (intro signed_take_bit_int_eq_self) simp_all
  finally show ?thesis .
qed

lemma scast_of_nat_small:
  assumes "n < 2 ^ 31"
  shows "(scast (of_nat n :: 32 word) :: 64 word) = of_nat n"
  by (simp only: scast_eq sint_of_nat_small[OF assms]) simp

lemma unat_of_nat64_small:
  assumes "n < 2 ^ 64"
  shows "unat (of_nat n :: 64 word) = n"
  using assms by (simp add: unat_of_nat)

lemma count_repeats_exact:
  assumes wf: "unat (length_s src) \<le> length (code src)"
    and rem: "remaining src = ch # rest"
  shows "count_repeats src ch = of_nat (Suc (length (takeWhile (\<lambda>x. x = ch) rest)))"
  using count_repeats_loop_exact[OF wf, of ch 0 "position src"] rem
  by (simp add: count_repeats_def remaining_def)

lemma remaining_length:
  "length (remaining src) = unat (length_s src) - unat (position src)"
  if "unat (length_s src) \<le> length (code src)"
  using that by (simp add: remaining_def)

lemma emit_op_foldable_many:
  assumes "classify ch = Some i" and "foldable ch" and "1 < n"
  shows "emit_op e (i, n) = Inr (e\<lparr>em_out := em_out e @
     [if ch = CHR ''+'' then Addb (of_nat n) else if ch = CHR ''-'' then Subb (of_nat n)
      else if ch = CHR ''>'' then Addq (of_nat n) else Subq (of_nat n)]\<rparr>)"
  using assms by (auto simp: foldable_def classify_def)

lemma compile_optimized_many:
  assumes count: "count_repeats src ch = w" and gt: "1 <s w" and f: "foldable ch"
  shows "compile_optimized c src ch =
        Inr (emit c (if ch = CHR ''+'' then Addb w else if ch = CHR ''-'' then Subb w
                     else if ch = CHR ''>'' then Addq w else Subq w),
             src\<lparr>position := position src + scast (w - 1)\<rparr>)"
  unfolding compile_optimized_def count Let_def using gt f by (simp only: simp_thms if_True)

lemma compile_optimized_single:
  assumes count: "count_repeats src ch = w" and ngt: "\<not> (1 <s w \<and> foldable ch)"
  shows "compile_optimized c src ch =
        (case compile_instruction c ch of Inl e \<Rightarrow> Inl e | Inr c1 \<Rightarrow> Inr (c1, src))"
  unfolding compile_optimized_def count Let_def using ngt by (simp only: if_False)

lemma compile_optimized_abs:
  assumes wf: "unat (length_s src) \<le> length (code src)"
    and small: "unat (length_s src) < 2 ^ 30"
    and rem: "remaining src = ch # rest"
    and ok: "stack_ok c" and depth: "length (stack_of c) < 2 ^ 30"
    and cl: "classify ch = Some i"
    and n: "n = (if foldable ch then Suc (length (takeWhile (\<lambda>x. x = ch) rest)) else 1)"
  shows "case emit_op (emitter_of c) (i, n) of
           Inl (e, a) \<Rightarrow> compile_optimized c src ch = Inl (e, c)
         | Inr a \<Rightarrow> \<exists>c1. compile_optimized c src ch
               = Inr (c1, src\<lparr>position := position src + of_nat (n - 1)\<rparr>) \<and>
             emitter_of c1 = a \<and> stack_ok c1"
proof -
  define m where "m = Suc (length (takeWhile (\<lambda>x. x = ch) rest))"
  define w :: "32 word" where "w = of_nat m"
  have count: "count_repeats src ch = w"
    unfolding m_def w_def by (rule count_repeats_exact[OF wf rem])
  have "m \<le> length (remaining src)"
    unfolding m_def rem using length_takeWhile_le[of "\<lambda>x. x = ch" rest] by simp
  then have m30: "m < 1073741824"
    using small remaining_length[OF wf] by simp
  then have m31: "m < 2 ^ 31" and m31': "m - 1 < 2 ^ 31" by simp_all
  have gt: "1 <s w \<longleftrightarrow> 1 < m"
    unfolding w_def by (simp add: word_sless_alt sint_of_nat_small[OF m31])
  have "w - 1 = of_nat (m - 1)"
    unfolding w_def by (simp add: m_def)
  then have sc: "(scast (w - 1) :: 64 word) = of_nat (m - 1)"
    using scast_of_nat_small[OF m31'] by (simp only:)
  show ?thesis
  proof (cases "1 < m \<and> foldable ch")
    case True
    then have nm: "n = m" using n by (simp add: m_def)
    have "1 <s w" using True gt by simp
    note co = compile_optimized_many[OF count this, of c] 
    have eo: "emit_op (emitter_of c) (i, m) = Inr ((emitter_of c)\<lparr>em_out := em_out (emitter_of c) @
     [if ch = CHR ''+'' then Addb w else if ch = CHR ''-'' then Subb w
      else if ch = CHR ''>'' then Addq w else Subq w]\<rparr>)"
      unfolding w_def using True by (intro emit_op_foldable_many[OF cl]) simp_all
    show ?thesis
      unfolding nm eo using True ok co sc by simp
  next
    case False
    then have "\<not> (1 <s w \<and> foldable ch)" using gt by simp
    note co = compile_optimized_single[OF count this, of c]
    have n1: "n = 1"
      using False n by (cases "foldable ch") (simp_all add: m_def)
    show ?thesis
      using compile_instruction_abs[OF ok depth cl] unfolding co n1
      by (auto split: sum.splits)
  qed
qed

lemma strchr_classify:
  "classify ch = Some i \<Longrightarrow> strchr ''+-><.,[]'' ch"
  by (drule classify_cases) (auto simp: strchr_def)

lemma compile_step_skip:
  assumes "classify ch = None" and "code src ! unat (position src) = ch"
  shows "compile_step c src = Inr (c, src\<lparr>position := position src + 1\<rparr>)"
proof -
  have "\<not> foldable ch"
    using assms(1) by (auto simp: foldable_def classify_def)
  then have "compile_optimized c src ch = Inr (c, src)"
    using compile_instruction_other[OF assms(1)] by (simp add: compile_optimized_def)
  then show ?thesis
    using assms(2) by (simp add: compile_step_def)
qed

lemma compile_step_abs:
  assumes wf: "unat (length_s src) \<le> length (code src)"
    and small: "unat (length_s src) < 2 ^ 30"
    and rem: "remaining src = ch # rest"
    and ok: "stack_ok c" and depth: "length (stack_of c) < 2 ^ 30"
    and cl: "classify ch = Some i"
    and n: "n = (if foldable ch then Suc (length (takeWhile (\<lambda>x. x = ch) rest)) else 1)"
  shows "case emit_op (emitter_of c) (i, n) of
           Inl (e, a) \<Rightarrow> compile_step c src = Inl (e, c)
         | Inr a \<Rightarrow> \<exists>c1. compile_step c src
               = Inr (c1, src\<lparr>position := position src + of_nat n\<rparr>) \<and>
             emitter_of c1 = a \<and> stack_ok c1"
proof -
  have lt: "position src < length_s src"
    using rem remaining_Nil[of src] by auto
  have ch: "code src ! unat (position src) = ch"
    using remaining_Cons[OF wf lt] rem by simp
  have "0 < n" using n by simp
  then have "(of_nat (n - 1) :: 64 word) + 1 = of_nat n"
    by (cases n) simp_all
  then show ?thesis
    using compile_optimized_abs[OF wf small rem ok depth cl n] strchr_classify[OF cl] ch
    by (auto simp: compile_step_def add.assoc split: sum.splits)
qed

lemma remaining_advance:
  assumes wf: "unat (length_s src) \<le> length (code src)"
    and n: "n \<le> length (remaining src)" and pos: "position src \<le> length_s src"
  shows "remaining (src\<lparr>position := position src + of_nat n\<rparr>) = drop n (remaining src)"
    and "position src + of_nat n \<le> length_s src"
proof -
  have "unat (position src) \<le> unat (length_s src)"
    using pos by (simp add: word_le_nat_alt)
  then have le: "unat (position src) + n \<le> unat (length_s src)"
    using n remaining_length[OF wf] by simp
  moreover have "unat (length_s src) < 2 ^ 64" by (rule unat_bound64)
  ultimately have n64: "n < 2 ^ 64" "unat (position src) + n < 2 ^ 64" by simp_all
  have "unat (position src + of_nat n) = unat (position src) + n"
    using n64 by (simp add: unat_add_small unat_of_nat64_small)
  then show "remaining (src\<lparr>position := position src + of_nat n\<rparr>) = drop n (remaining src)"
    and "position src + of_nat n \<le> length_s src"
    using le by (simp_all add: remaining_def word_le_nat_alt add.commute)
qed

subsection \<open>The whole loop\<close>

declare compile_loop.simps [simp del]

lemma emit_op_stack_length:
  assumes "emit_op e (i, n) = Inr a"
  shows "length (em_stack a) \<le> (if i = LoopOpen then Suc (length (em_stack e)) else length (em_stack e))"
  using assms by (cases i) (auto split: list.splits)

lemma scan_Cons_None:
  "classify ch = None \<Longrightarrow> scan (ch # rest) = scan rest"
  by simp

lemma scan_Cons_Some:
  assumes "classify ch = Some i"
    and "n = (if foldable ch then Suc (length (takeWhile (\<lambda>x. x = ch) rest)) else 1)"
  shows "scan (ch # rest) = (i, n) # scan (drop n (ch # rest))"
  using assms by (simp add: dropWhile_eq_drop)

lemma compile_loop_pipeline:
  assumes "loop_inv c src"
  shows "case compile_loop c src of
           Inl (e, c1) \<Rightarrow> emit_ops (emitter_of c) (scan (remaining src)) = Inl (e, emitter_of c1)
         | Inr (c1, src1) \<Rightarrow>
             emit_ops (emitter_of c) (scan (remaining src)) = Inr (emitter_of c1) \<and>
             stack_ok c1 \<and> src1 = src\<lparr>position := length_s src\<rparr>"
  using assms
proof (induction c src rule: compile_loop.induct)
  case (1 c src)
  note inv = "1.prems"
  have wf: "unat (length_s src) \<le> length (code src)"
    and small: "unat (length_s src) < 2 ^ 30"
    and pos: "position src \<le> length_s src" and ok: "stack_ok c"
    and bound: "length (stack_of c) + length (remaining src) \<le> unat (length_s src)"
    using inv by (simp_all add: loop_inv_def)
  have depth: "length (stack_of c) < 2 ^ 30" using bound small by simp
  show ?case
  proof (cases "position src < length_s src")
    case False
    then have "position src = length_s src" using pos by simp
    then have "src\<lparr>position := length_s src\<rparr> = src" by simp
    then show ?thesis
      using False ok remaining_Nil[OF False]
      by (subst compile_loop.simps) simp
  next
    case lt: True
    obtain ch rest where rem: "remaining src = ch # rest"
      using remaining_Cons[OF wf lt] by blast
    have ch: "code src ! unat (position src) = ch"
      using remaining_Cons[OF wf lt] rem by simp
    show ?thesis
    proof (cases "classify ch")
      case None
      let ?src1 = "src\<lparr>position := position src + 1\<rparr>"
      have step: "compile_step c src = Inr (c, ?src1)"
        by (rule compile_step_skip[OF None ch])
      have adv: "remaining ?src1 = rest" "position ?src1 \<le> length_s ?src1"
        using remaining_advance[OF wf, of 1] rem pos by simp_all
      have "loop_inv c ?src1"
        using wf small ok bound adv rem by (simp add: loop_inv_def)
      from "1.IH"[OF lt step refl this]
      show ?thesis
        using lt step adv(1) rem None
        by (subst compile_loop.simps) (simp split: sum.splits prod.splits)
    next
      case (Some i)
      define n where "n = (if foldable ch then Suc (length (takeWhile (\<lambda>x. x = ch) rest)) else 1)"
      have n_le: "n \<le> length (remaining src)" and n_pos: "0 < n"
        unfolding rem n_def using length_takeWhile_le[of "\<lambda>x. x = ch" rest] by simp_all
      let ?src1 = "src\<lparr>position := position src + of_nat n\<rparr>"
      have adv: "remaining ?src1 = drop n (ch # rest)" "position ?src1 \<le> length_s ?src1"
        using remaining_advance[OF wf n_le pos] rem by simp_all
      have sc: "scan (remaining src) = (i, n) # scan (remaining ?src1)"
        unfolding rem adv by (rule scan_Cons_Some[OF Some n_def])
      note st = compile_step_abs[OF wf small rem ok depth Some n_def]
      show ?thesis
      proof (cases "emit_op (emitter_of c) (i, n)")
        case (Inl x)
        then obtain e a where x: "x = (e, a)" by (cases x)
        have "compile_step c src = Inl (e, c)"
          using st Inl x by simp
        moreover have "a = emitter_of c"
          using Inl x by (cases i) (auto split: list.splits)
        ultimately show ?thesis
          using lt sc Inl x by (subst compile_loop.simps) simp
      next
        case (Inr a)
        then obtain c1 where c1: "compile_step c src = Inr (c1, ?src1)"
            "emitter_of c1 = a" "stack_ok c1"
          using st by auto
        have "length (em_stack a) \<le> length (em_stack (emitter_of c)) + n"
          using emit_op_stack_length[OF Inr] n_pos by (simp split: if_splits)
        then have "length (stack_of c1) + length (remaining ?src1) \<le> unat (length_s src)"
          using c1(2) bound adv(1) rem n_le by (auto simp: emitter_of_def)
        then have "loop_inv c1 ?src1"
          using wf small c1(3) adv(2) by (simp add: loop_inv_def)
        from "1.IH"[OF lt c1(1) refl this]
        show ?thesis
          using lt c1 sc Inr
          by (subst compile_loop.simps) (simp split: sum.splits prod.splits)
      qed
    qed
  qed
qed

lemma stack_of_empty_iff:
  assumes "stack_ok c"
  shows "stack_of c = [] \<longleftrightarrow> \<not> 0 \<le>s loop_stack_top c"
  using assms stack_of_length[OF assms]
  by (auto simp: word_sle_eq stack_ok_def simp flip: length_0_conv)

lemma unat_length_small:
  assumes "length bytes < 2 ^ 30"
  shows "unat (of_nat (length bytes) :: 64 word) = length bytes"
  using assms by (intro unat_of_nat64_small) simp

lemma remaining_read_source:
  assumes "length bytes < 2 ^ 30"
  shows "remaining (read_source bytes) = bytes"
  using unat_length_small[OF assms] by (simp add: remaining_def read_source_def)

lemma stack_ok_create: "stack_ok create_compiler" and stack_of_create: "stack_of create_compiler = []"
  by (simp_all add: stack_ok_def stack_of_def create_compiler_def)

lemma emitter_of_begin: "emitter_of (emit_header create_compiler) = begin_emitter"
  by (simp add: emit_header_def begin_emitter_def emitter_of_def stack_of_create)
     (simp add: create_compiler_def)

lemma loop_inv_begin:
  assumes "length bytes < 2 ^ 30"
  shows "loop_inv (emit_header create_compiler) (read_source bytes)"
  using assms remaining_read_source[OF assms] unat_length_small[OF assms]
  unfolding loop_inv_def
  by (simp add: emit_header_def stack_ok_create stack_of_create) (simp add: read_source_def)

text \<open>The C program computes what the scanner and the emitter compute.\<close>

lemma bfc_main_pipeline:
  assumes small: "length bytes < 2 ^ 30"
  shows "case bfc_main bytes of
           Inl (e, c) \<Rightarrow> pipeline bytes = Inl (e, emitter_of c)
         | Inr (c, src) \<Rightarrow> pipeline bytes = Inr (emitter_of c)"
proof -
  note loop = compile_loop_pipeline[OF loop_inv_begin[OF small]]
  show ?thesis
  proof (cases "compile_loop (emit_header create_compiler) (read_source bytes)")
    case (Inl x)
    then show ?thesis
      using loop
      by (auto simp: bfc_main_def compile_def pipeline_def emitter_of_begin
          remaining_read_source[OF small])
  next
    case (Inr y)
    then obtain c1 src1 where y: "y = (c1, src1)" by (cases y)
    have ops: "emit_ops begin_emitter (scan bytes) = Inr (emitter_of c1)" and ok1: "stack_ok c1"
      using loop Inr y by (simp_all add: emitter_of_begin remaining_read_source[OF small])
    have "em_stack (emitter_of c1) = [] \<longleftrightarrow> \<not> 0 \<le>s loop_stack_top c1"
      using stack_of_empty_iff[OF ok1] by (simp add: emitter_of_def)
    then show ?thesis
      using Inr y ops
      by (auto simp: bfc_main_def compile_def pipeline_def end_emitter_def emit_footer_def)
  qed
qed

subsection \<open>Termination of the scan\<close>

lemma compile_loop_fuel_enough:
  "unat (length_s src) - unat (position src) < k \<Longrightarrow>
   compile_loop_fuel k c src = Some (compile_loop c src)"
proof (induction k arbitrary: c src)
  case 0
  then show ?case by simp
next
  case (Suc k)
  show ?case
  proof (cases "position src < length_s src")
    case False
    then show ?thesis by (subst compile_loop.simps) simp
  next
    case lt: True
    show ?thesis
    proof (cases "compile_step c src")
      case (Inl e)
      then show ?thesis using lt by (subst compile_loop.simps) simp
    next
      case (Inr y)
      then obtain c1 src1 where y: "compile_step c src = Inr (c1, src1)" by (cases y) simp
      note pr = compile_step_progress[OF lt y]
      have "unat (length_s src1) - unat (position src1) < k"
        using pr Suc.prems by simp
      from Suc.IH[OF this] show ?thesis
        using lt y by (subst compile_loop.simps) simp
    qed
  qed
qed

text \<open>
  C9. The scan terminates: the loop of \<^verbatim>\<open>compile\<close> ends within as many iterations as
  there are bytes between the cursor and the length (one more bound step sees the loop
  condition fail), and an iteration that returns has moved the cursor forward by at
  least one, to at most the length, leaving the text and the length as they were.
\<close>

theorem scan_terminates:
  "compile_loop_fuel (Suc (unat (length_s src) - unat (position src))) c src
     = Some (compile_loop c src) \<and>
   (position src < length_s src \<longrightarrow>
     (case compile_step c src of
        Inl e \<Rightarrow> True
      | Inr (c1, src1) \<Rightarrow>
          unat (position src) < unat (position src1) \<and>
          unat (position src1) \<le> unat (length_s src) \<and>
          length_s src1 = length_s src \<and> code src1 = code src))"
proof (intro conjI impI)
  show "compile_loop_fuel (Suc (unat (length_s src) - unat (position src))) c src
     = Some (compile_loop c src)"
    by (rule compile_loop_fuel_enough) simp
next
  assume lt: "position src < length_s src"
  show "case compile_step c src of
        Inl e \<Rightarrow> True
      | Inr (c1, src1) \<Rightarrow>
          unat (position src) < unat (position src1) \<and>
          unat (position src1) \<le> unat (length_s src) \<and>
          length_s src1 = length_s src \<and> code src1 = code src"
    using compile_step_progress[OF lt] by (auto split: sum.splits)
qed

theorem scan_terminates_witness:
  "position (read_source ''+++.'') < length_s (read_source ''+++.'') \<and>
   compile_loop_fuel 5 create_compiler (read_source ''+++.'')
     = Some (compile_loop create_compiler (read_source ''+++.'')) \<and>
   (\<exists>c1 src1. compile_step create_compiler (read_source ''+++.'') = Inr (c1, src1) \<and>
      position src1 = 3 \<and> output_f c1 = [Addb 3])"
proof -
  have lt: "position (read_source ''+++.'') < length_s (read_source ''+++.'')"
    by (simp add: read_source_def)
  have st: "compile_step create_compiler (read_source ''+++.'')
      = Inr (emit create_compiler (Addb 3), (read_source ''+++.'')\<lparr>position := 3\<rparr>)"
    by code_simp
  have "unat (length_s (read_source ''+++.'')) - unat (position (read_source ''+++.'')) = 4"
    by (simp add: read_source_def)
  then show ?thesis
    using scan_terminates[of "read_source ''+++.''" create_compiler] lt st
    by (simp add: create_compiler_def)
qed

subsection \<open>Folding of runs\<close>

lemma compile_instruction_foldable:
  assumes "foldable ch"
  shows "compile_instruction c ch = Inr (emit c (folded_asm ch 1))"
  using assms by (auto simp: foldable_def folded_asm_def compile_instruction_simps)

lemma compile_step_foldable:
  assumes wf: "unat (length_s src) \<le> length (code src)"
    and small: "unat (length_s src) < 2 ^ 30"
    and rem: "remaining src = ch # rest"
    and f: "foldable ch"
    and n: "n = Suc (length (takeWhile (\<lambda>x. x = ch) rest))"
  shows "count_repeats src ch = of_nat n"
    and "compile_step c src
      = Inr (emit c (folded_asm ch n), src\<lparr>position := position src + of_nat n\<rparr>)"
proof -
  define w :: "32 word" where "w = of_nat n"
  show count: "count_repeats src ch = of_nat n"
    unfolding n by (rule count_repeats_exact[OF wf rem])
  have "n \<le> length (remaining src)"
    unfolding n rem using length_takeWhile_le[of "\<lambda>x. x = ch" rest] by simp
  then have "n < 1073741824"
    using small remaining_length[OF wf] by simp
  then have m31: "n < 2 ^ 31" and m31': "n - 1 < 2 ^ 31" by simp_all
  have gt: "1 <s w \<longleftrightarrow> 1 < n"
    unfolding w_def by (simp add: word_sless_alt sint_of_nat_small[OF m31])
  have "w - 1 = of_nat (n - 1)"
    unfolding w_def by (simp add: n)
  then have sc: "(scast (w - 1) :: 64 word) = of_nat (n - 1)"
    using scast_of_nat_small[OF m31'] by (simp only:)
  have inc: "(of_nat (n - 1) :: 64 word) + 1 = of_nat n"
    by (simp add: n)
  have lt: "position src < length_s src"
    using rem remaining_Nil[of src] by auto
  have ch: "code src ! unat (position src) = ch"
    using remaining_Cons[OF wf lt] rem by simp
  have str: "strchr ''+-><.,[]'' ch"
    using f by (auto simp: foldable_def strchr_def)
  have "compile_optimized c src ch
      = Inr (emit c (folded_asm ch n), src\<lparr>position := position src + of_nat (n - 1)\<rparr>)"
  proof (cases "1 < n")
    case True
    then have "1 <s w" using gt by simp
    from compile_optimized_many[OF count[folded w_def] this f, of c]
    show ?thesis
      using True sc by (simp add: folded_asm_def w_def)
  next
    case False
    then have n1: "n = 1" using n by simp
    have "\<not> (1 <s w \<and> foldable ch)" using gt False by simp
    from compile_optimized_single[OF count[folded w_def] this, of c]
    show ?thesis
      using compile_instruction_foldable[OF f, of c] by (simp add: n1)
  qed
  then show "compile_step c src
      = Inr (emit c (folded_asm ch n), src\<lparr>position := position src + of_nat n\<rparr>)"
    using str ch inc by (simp add: compile_step_def add.assoc)
qed

lemma source_at_facts:
  assumes small: "length bytes < 2 ^ 30" and p: "p \<le> length bytes"
  shows "unat (length_s (source_at bytes p)) = length bytes"
    and "unat (position (source_at bytes p)) = p"
    and "unat (length_s (source_at bytes p)) \<le> length (code (source_at bytes p))"
    and "remaining (source_at bytes p) = drop p bytes"
    and "position (source_at bytes p) \<le> length_s (source_at bytes p)"
proof -
  have l: "unat (of_nat (length bytes) :: 64 word) = length bytes"
    by (rule unat_length_small[OF small])
  have "p < 2 ^ 64" using p small by simp
  then have q: "unat (of_nat p :: 64 word) = p" by (rule unat_of_nat64_small)
  show "unat (length_s (source_at bytes p)) = length bytes"
    and "unat (position (source_at bytes p)) = p"
    and "unat (length_s (source_at bytes p)) \<le> length (code (source_at bytes p))"
    and "remaining (source_at bytes p) = drop p bytes"
    and "position (source_at bytes p) \<le> length_s (source_at bytes p)"
    using l q p by (simp_all add: source_at_def read_source_def remaining_def word_le_nat_alt)
qed

lemma source_at_advance:
  "(source_at bytes p)\<lparr>position := position (source_at bytes p) + of_nat n\<rparr>
     = source_at bytes (p + n)"
  by (simp add: source_at_def)

lemma run_maximal:
  fixes bytes :: "char list"
  assumes p: "p < length bytes"
    and n: "n = length (takeWhile (\<lambda>x. x = bytes ! p) (drop p bytes))"
  shows "1 \<le> n" and "p + n \<le> length bytes"
    and "\<forall>k<n. bytes ! (p + k) = bytes ! p"
    and "p + n < length bytes \<longrightarrow> bytes ! (p + n) \<noteq> bytes ! p"
proof -
  let ?P = "\<lambda>x. x = bytes ! p"
  have d: "drop p bytes = bytes ! p # drop (Suc p) bytes"
    using p by (simp add: Cons_nth_drop_Suc)
  show "1 \<le> n" unfolding n by (subst d) simp
  have le: "n \<le> length (drop p bytes)"
    unfolding n by (rule length_takeWhile_le)
  then show "p + n \<le> length bytes" using p by simp
  show "\<forall>k<n. bytes ! (p + k) = bytes ! p"
  proof (intro allI impI)
    fix k assume k: "k < n"
    then have "takeWhile ?P (drop p bytes) ! k = drop p bytes ! k"
      unfolding n by (rule takeWhile_nth)
    moreover have "takeWhile ?P (drop p bytes) ! k \<in> set (takeWhile ?P (drop p bytes))"
      using k unfolding n by (rule nth_mem)
    then have "?P (takeWhile ?P (drop p bytes) ! k)"
      by (rule set_takeWhileD[THEN conjunct2])
    ultimately show "bytes ! (p + k) = bytes ! p"
      using k le p by simp
  qed
  show "p + n < length bytes \<longrightarrow> bytes ! (p + n) \<noteq> bytes ! p"
  proof
    assume "p + n < length bytes"
    then have "n < length (drop p bytes)" by simp
    then have "\<not> ?P (drop p bytes ! n)"
      unfolding n by (rule nth_length_takeWhile)
    then show "bytes ! (p + n) \<noteq> bytes ! p"
      using \<open>p + n < length bytes\<close> by simp
  qed
qed

lemma foldable_classify:
  assumes "foldable ch"
  shows "\<exists>i. classify ch = Some i \<and>
    (\<forall>e n. emit_op e (i, n) = Inr (e\<lparr>em_out := em_out e @ [folded_asm ch n]\<rparr>))"
  using assms by (auto simp: foldable_def classify_def folded_asm_def)

text \<open>
  C6. At a cursor \<open>p\<close> on one of \<^verbatim>\<open>+ - > <\<close>, \<^verbatim>\<open>count_repeats\<close> returns the length
  \<open>n \<ge> 1\<close> of the maximal run of that byte starting at \<open>p\<close> (all \<open>n\<close> bytes are equal,
  and the byte after the run, if any, differs); the iteration appends exactly one
  instruction to the output, the one for the folded operation \<open>(I, n)\<close> of the scanner, and
  leaves the cursor at \<open>p + n\<close>.
\<close>

theorem folded_run_once:
  assumes small: "length bytes < 2 ^ 30" and p: "p < length bytes"
    and f: "foldable (bytes ! p)"
    and n: "n = length (takeWhile (\<lambda>x. x = bytes ! p) (drop p bytes))"
  shows "1 \<le> n \<and> p + n \<le> length bytes \<and>
     (\<forall>k<n. bytes ! (p + k) = bytes ! p) \<and>
     (p + n < length bytes \<longrightarrow> bytes ! (p + n) \<noteq> bytes ! p) \<and>
     count_repeats (source_at bytes p) (bytes ! p) = of_nat n \<and>
     compile_step c (source_at bytes p)
       = Inr (emit c (folded_asm (bytes ! p) n), source_at bytes (p + n)) \<and>
     (\<exists>c1 src1. compile_step c (source_at bytes p) = Inr (c1, src1) \<and>
        output_f c1 = output_f c @ [folded_asm (bytes ! p) n] \<and>
        length (output_f c1) = Suc (length (output_f c)) \<and>
        src1 = source_at bytes (p + n) \<and>
        unat (position src1) = unat (position (source_at bytes p)) + n) \<and>
     unat (position (source_at bytes (p + n))) = p + n \<and>
     (\<exists>i. classify (bytes ! p) = Some i \<and>
          scan (drop p bytes) = (i, n) # scan (drop (p + n) bytes) \<and>
          emit_op (emitter_of c) (i, n)
            = Inr ((emitter_of c)\<lparr>em_out := em_out (emitter_of c) @ [folded_asm (bytes ! p) n]\<rparr>))"
proof -
  let ?ch = "bytes ! p" and ?src = "source_at bytes p"
  note mx = run_maximal[OF p n]
  note sa = source_at_facts[OF small less_imp_le[OF p]]
  have d: "drop p bytes = ?ch # drop (Suc p) bytes"
    using p by (simp add: Cons_nth_drop_Suc)
  have n': "n = Suc (length (takeWhile (\<lambda>x. x = ?ch) (drop (Suc p) bytes)))"
    unfolding n by (subst d) simp
  have rem: "remaining ?src = ?ch # drop (Suc p) bytes"
    using sa(4) d by simp
  have small': "unat (length_s ?src) < 2 ^ 30"
    using sa(1) small by simp
  note st = compile_step_foldable(1)[OF sa(3) small' rem f n']
    compile_step_foldable(2)[OF sa(3) small' rem f n', of c]
  have pos: "unat (position (source_at bytes (p + n))) = p + n"
    by (rule source_at_facts(2)[OF small mx(2)])
  have step: "compile_step c ?src = Inr (emit c (folded_asm ?ch n), source_at bytes (p + n))"
    using st(2) by (simp only: source_at_advance)
  have out: "\<exists>c1 src1. compile_step c ?src = Inr (c1, src1) \<and>
        output_f c1 = output_f c @ [folded_asm ?ch n] \<and>
        length (output_f c1) = Suc (length (output_f c)) \<and>
        src1 = source_at bytes (p + n) \<and>
        unat (position src1) = unat (position ?src) + n"
    using step pos sa(2) by (simp add: emit_def)
  obtain i where i: "classify ?ch = Some i"
    "\<And>e k. emit_op e (i, k) = Inr (e\<lparr>em_out := em_out e @ [folded_asm ?ch k]\<rparr>)"
    using foldable_classify[OF f] by blast
  have "scan (drop p bytes) = (i, n) # scan (drop n (drop p bytes))"
    unfolding d by (rule scan_Cons_Some[OF i(1)]) (simp add: f n')
  then have sc: "scan (drop p bytes) = (i, n) # scan (drop (p + n) bytes)"
    by (simp add: add.commute)
  have fin: "\<exists>i. classify ?ch = Some i \<and>
          scan (drop p bytes) = (i, n) # scan (drop (p + n) bytes) \<and>
          emit_op (emitter_of c) (i, n)
            = Inr ((emitter_of c)\<lparr>em_out := em_out (emitter_of c) @ [folded_asm ?ch n]\<rparr>)"
    using i(1) sc i(2)[of "emitter_of c" n] by blast
  show ?thesis
    using mx st(1) step out pos fin by (intro conjI)
qed

theorem folded_run_once_witness:
  "length ''a+++b'' < (2::nat) ^ 30 \<and> (1::nat) < length ''a+++b'' \<and> foldable (''a+++b'' ! 1) \<and>
   length (takeWhile (\<lambda>x. x = ''a+++b'' ! 1) (drop 1 ''a+++b'')) = 3 \<and>
   count_repeats (source_at ''a+++b'' 1) CHR ''+'' = 3 \<and>
   (\<exists>c1 src1. compile_step create_compiler (source_at ''a+++b'' 1) = Inr (c1, src1) \<and>
      output_f c1 = [Addb 3] \<and> src1 = source_at ''a+++b'' 4 \<and> unat (position src1) = 4) \<and>
   scan ''+++b'' = [(IncCell, 3)]"
proof -
  have h1: "length ''a+++b'' < (2::nat) ^ 30" by simp
  have h2: "(1::nat) < length ''a+++b''" by simp
  have h3: "foldable (''a+++b'' ! 1)" by (simp add: foldable_def)
  have h4: "(3::nat) = length (takeWhile (\<lambda>x. x = ''a+++b'' ! 1) (drop 1 ''a+++b''))" by simp
  have a: "folded_asm (''a+++b'' ! 1) 3 = Addb 3" by (simp add: folded_asm_def)
  have o: "output_f create_compiler = []" by (simp add: create_compiler_def)
  have q: "unat (position (source_at ''a+++b'' 1)) = 1" by (simp add: source_at_def read_source_def)
  have s: "scan ''+++b'' = [(IncCell, 3)]" by (simp add: classify_def foldable_def)
  have r: "(case compile_step create_compiler (source_at ''a+++b'' 1) of
      Inl e \<Rightarrow> ([], 0) | Inr (c2, src2) \<Rightarrow> (output_f c2, unat (position src2)))
    = ([Addb 3], 4)"
    by code_simp
  note t = folded_run_once[OF h1 h2 h3 h4, of create_compiler]
  from t obtain c1 src1 where
    c: "compile_step create_compiler (source_at ''a+++b'' 1) = Inr (c1, src1)"
      "output_f c1 = output_f create_compiler @ [folded_asm (''a+++b'' ! 1) 3]"
      "src1 = source_at ''a+++b'' (1 + 3)"
      "unat (position src1) = unat (position (source_at ''a+++b'' 1)) + 3"
    by blast
  have "\<exists>c1 src1. compile_step create_compiler (source_at ''a+++b'' 1) = Inr (c1, src1) \<and>
      output_f c1 = [Addb 3] \<and> src1 = source_at ''a+++b'' 4 \<and> unat (position src1) = 4"
    using c r unfolding a o q by simp
  moreover have "count_repeats (source_at ''a+++b'' 1) CHR ''+'' = 3"
    using t by simp
  ultimately show ?thesis
    using h1 h2 h3 h4[symmetric] s by (intro conjI)
qed

subsection \<open>The effect of the emitted arithmetic\<close>

declare dec_nat.simps [simp del]

lemma add_cell_add: "add_cell a (add_cell b m) = add_cell (a + b) m"
  by (simp add: add_cell_def ac_simps)

lemma move_ptr_add: "move_ptr a (move_ptr b m) = move_ptr (a + b) m"
  by (simp add: move_ptr_def)

lemma add_cell_0: "add_cell 0 m = m" and move_ptr_0: "move_ptr 0 m = m"
  by (simp_all add: add_cell_def move_ptr_def)

lemma add_cell_funpow: "(add_cell d ^^ n) m = add_cell (of_nat n * d) m"
  by (induction n) (simp_all add: add_cell_0 add_cell_add algebra_simps)

lemma move_ptr_funpow: "(move_ptr d ^^ n) m = move_ptr (int n * d) m"
  by (induction n) (simp_all add: move_ptr_0 move_ptr_add algebra_simps)

lemma unit_effect_funpow:
  "(unit_effect ch ^^ n) m = delta_effect ch n m"
proof -
  have "unit_effect ch = (if ch = CHR ''+'' then add_cell 1 else if ch = CHR ''-'' then add_cell (- 1)
      else if ch = CHR ''>'' then move_ptr 1 else if ch = CHR ''<'' then move_ptr (- 1)
      else id)"
    by (rule ext) (simp add: unit_effect_def)
  then show ?thesis
    by (simp add: delta_effect_def add_cell_funpow move_ptr_funpow)
qed

lemma ucast_of_nat_byte: "(ucast (of_nat n :: 32 word) :: 8 word) = of_nat n"
proof -
  have "take_bit 8 (take_bit 32 n) = take_bit 8 n"
    by simp
  then show ?thesis
    by (simp add: unsigned_of_nat word_of_nat_eq_iff)
qed

lemma exec_folded_asm:
  assumes f: "foldable ch" and n: "0 < n" "n < 2 ^ 31"
  shows "exec (folded_asm ch n) m = Some (delta_effect ch n m)"
proof (cases "n = 1")
  case True
  then show ?thesis
    using f by (auto simp: folded_asm_def delta_effect_def foldable_def)
next
  case False
  then show ?thesis
    using f sint_of_nat_small[OF n(2)]
    by (auto simp: folded_asm_def delta_effect_def foldable_def ucast_of_nat_byte)
qed

lemma dec_nat_digits: "set (dec_nat n) \<subseteq> set ''0123456789''"
proof (induction n rule: dec_nat.induct)
  case (1 n)
  have d: "dec_digit n \<in> set ''0123456789''"
    unfolding dec_digit.simps by (rule nth_mem) simp
  show ?case
  proof (cases "n < 10")
    case True
    then show ?thesis using d by (subst dec_nat.simps) simp
  next
    case False
    then show ?thesis using d 1 by (subst dec_nat.simps) simp
  qed
qed

lemma fmt_d_no_newline: "filter (\<lambda>x. x = CHR 0x0A) (fmt_d w) = []"
proof -
  have "CHR 0x0A \<notin> set (dec_nat k)" for k
    using dec_nat_digits[of k] by auto
  then have "CHR 0x0A \<notin> set (fmt_d w)"
    by (simp add: fmt_d_def)
  then show ?thesis
    by (auto simp: filter_empty_conv)
qed

lemma folded_asm_one_line:
  "length (filter (\<lambda>x. x = CHR 0x0A) (render (folded_asm ch n))) = 1"
  by (simp add: folded_asm_def NL_def fmt_d_no_newline)

lemma fmt_d_of_nat:
  assumes "n < 2 ^ 31"
  shows "fmt_d (of_nat n) = dec_nat n"
proof -
  have "sint (of_nat n :: 32 word) = int n"
    using assms by (simp add: signed_of_nat signed_take_bit_int_eq_self)
  then show ?thesis
    by (simp add: fmt_d_def)
qed

lemma folded_asm_cases:
  "folded_asm ch n =
     (if n = 1 then
        (if ch = CHR ''+'' then Incb else if ch = CHR ''-'' then Decb
         else if ch = CHR ''>'' then Incq else Decq)
      else spec_add_sub_by_n ch n)"
  by (simp add: folded_asm_def spec_add_sub_by_n_def)

lemma exec_spec_add_sub_by_n:
  assumes f: "foldable ch" and n: "0 < n" "n < 2 ^ 31"
  shows "exec (spec_add_sub_by_n ch n) m = Some (delta_effect ch n m)"
proof (cases "n = 1")
  case True
  then show ?thesis
    using f by (auto simp: spec_add_sub_by_n_def delta_effect_def foldable_def)
next
  case False
  then have "spec_add_sub_by_n ch n = folded_asm ch n"
    by (simp add: folded_asm_cases)
  then show ?thesis
    using exec_folded_asm[OF f n] by simp
qed

text \<open>
  C8, as the code has it. For a run of \<open>n \<ge> 2\<close> bytes \<^verbatim>\<open>+\<close> or \<^verbatim>\<open>-\<close> the compiler writes
  one instruction (one line of text), \<^verbatim>\<open>addb $n, (%r12)\<close> or \<^verbatim>\<open>subb $n, (%r12)\<close>, and for a
  run of \<^verbatim>\<open>>\<close> or \<^verbatim>\<open><\<close> one instruction \<^verbatim>\<open>addq $n, %r12\<close> or \<^verbatim>\<open>subq $n, %r12\<close>. For
  \<open>n = 1\<close> it writes no add or subtract instruction but the increment or decrement
  instruction of \<^verbatim>\<open>compile_instruction\<close>: \<^verbatim>\<open>incb\<close>, \<^verbatim>\<open>decb\<close>, \<^verbatim>\<open>incq\<close>, \<^verbatim>\<open>decq\<close>. In both cases
  the instruction written changes the cell or the pointer as the addition or subtraction
  of \<open>n\<close> does.
\<close>

theorem single_add_sub_or_unit_instruction:
  assumes small: "length bytes < 2 ^ 30" and p: "p < length bytes"
    and f: "foldable (bytes ! p)"
    and n: "n = length (takeWhile (\<lambda>x. x = bytes ! p) (drop p bytes))"
  shows "\<exists>a c1 src1. compile_step c (source_at bytes p) = Inr (c1, src1) \<and>
     output_f c1 = output_f c @ [a] \<and>
     a = (if n = 1 then
            (if bytes ! p = CHR ''+'' then Incb else if bytes ! p = CHR ''-'' then Decb
             else if bytes ! p = CHR ''>'' then Incq else Decq)
          else spec_add_sub_by_n (bytes ! p) n) \<and>
     render a =
       (if n = 1 then
          (if bytes ! p = CHR ''+'' then ''    incb (%r12)         # +''
           else if bytes ! p = CHR ''-'' then ''    decb (%r12)         # -''
           else if bytes ! p = CHR ''>'' then ''    incq %r12           # >''
           else ''    decq %r12           # <'') @ [CHR 0x0A]
        else
          (if bytes ! p = CHR ''+'' then
             ''    addb $'' @ dec_nat n @ '', (%r12)    # + x'' @ dec_nat n
           else if bytes ! p = CHR ''-'' then
             ''    subb $'' @ dec_nat n @ '', (%r12)    # - x'' @ dec_nat n
           else if bytes ! p = CHR ''>'' then
             ''    addq $'' @ dec_nat n @ '', %r12      # > x'' @ dec_nat n
           else ''    subq $'' @ dec_nat n @ '', %r12      # < x'' @ dec_nat n) @ [CHR 0x0A]) \<and>
     exec a m = Some (delta_effect (bytes ! p) n m) \<and>
     exec (spec_add_sub_by_n (bytes ! p) n) m = exec a m \<and>
     length (filter (\<lambda>x. x = CHR 0x0A) (render a)) = 1"
proof -
  let ?ch = "bytes ! p"
  note mx = run_maximal[OF p n]
  note sa = source_at_facts[OF small less_imp_le[OF p]]
  have d: "drop p bytes = ?ch # drop (Suc p) bytes"
    using p by (simp add: Cons_nth_drop_Suc)
  have n': "n = Suc (length (takeWhile (\<lambda>x. x = ?ch) (drop (Suc p) bytes)))"
    unfolding n by (subst d) simp
  have rem: "remaining (source_at bytes p) = ?ch # drop (Suc p) bytes"
    using sa(4) d by simp
  have small': "unat (length_s (source_at bytes p)) < 2 ^ 30"
    using sa(1) small by simp
  note st = compile_step_foldable(2)[OF sa(3) small' rem f n', of c]
  have n31: "n < 2 ^ 31" using mx(2) small by simp
  have n0: "0 < n" using mx(1) by simp
  have e1: "exec (folded_asm ?ch n) m = Some (delta_effect ?ch n m)"
    by (rule exec_folded_asm[OF f n0 n31])
  have e2: "exec (spec_add_sub_by_n ?ch n) m = exec (folded_asm ?ch n) m"
    unfolding e1 by (rule exec_spec_add_sub_by_n[OF f n0 n31])
  have out: "output_f (emit c (folded_asm ?ch n)) = output_f c @ [folded_asm ?ch n]"
    by (simp add: emit_def)
  have rtext: "render (folded_asm ?ch n) =
       (if n = 1 then
          (if ?ch = CHR ''+'' then ''    incb (%r12)         # +''
           else if ?ch = CHR ''-'' then ''    decb (%r12)         # -''
           else if ?ch = CHR ''>'' then ''    incq %r12           # >''
           else ''    decq %r12           # <'') @ [CHR 0x0A]
        else
          (if ?ch = CHR ''+'' then
             ''    addb $'' @ dec_nat n @ '', (%r12)    # + x'' @ dec_nat n
           else if ?ch = CHR ''-'' then
             ''    subb $'' @ dec_nat n @ '', (%r12)    # - x'' @ dec_nat n
           else if ?ch = CHR ''>'' then
             ''    addq $'' @ dec_nat n @ '', %r12      # > x'' @ dec_nat n
           else ''    subq $'' @ dec_nat n @ '', %r12      # < x'' @ dec_nat n) @ [CHR 0x0A])"
    using fmt_d_of_nat[OF n31] by (simp add: folded_asm_def NL_def)
  show ?thesis
    using st out folded_asm_cases[of ?ch n] rtext e1 e2
      folded_asm_one_line[of ?ch n]
    by (intro exI[of _ "folded_asm ?ch n"] exI[of _ "emit c (folded_asm ?ch n)"]
        exI[of _ "(source_at bytes p)\<lparr>position := position (source_at bytes p) + of_nat n\<rparr>"] conjI)
qed

theorem single_add_sub_or_unit_instruction_witness:
  "(\<exists>a c1 src1. compile_step create_compiler (source_at ''+++'' 0) = Inr (c1, src1) \<and>
      output_f c1 = [a] \<and> a = Addb 3 \<and>
      render a = ''    addb $3, (%r12)    # + x3'' @ [CHR 0x0A] \<and>
      exec a \<lparr>ptr = 7, mem = (\<lambda>_. 254)\<rparr> = Some (add_cell 3 \<lparr>ptr = 7, mem = (\<lambda>_. 254)\<rparr>)) \<and>
   (\<exists>a c1 src1. compile_step create_compiler (source_at ''<<-'' 0) = Inr (c1, src1) \<and>
      output_f c1 = [a] \<and> a = Subq 2 \<and>
      render a = ''    subq $2, %r12      # < x2'' @ [CHR 0x0A] \<and>
      exec a \<lparr>ptr = 7, mem = (\<lambda>_. 0)\<rparr> = Some (move_ptr (- 2) \<lparr>ptr = 7, mem = (\<lambda>_. 0)\<rparr>)) \<and>
   (\<exists>a c1 src1. compile_step create_compiler (source_at ''<<-'' 2) = Inr (c1, src1) \<and>
      output_f c1 = [a] \<and> a = Decb \<and>
      render a = ''    decb (%r12)         # -'' @ [CHR 0x0A] \<and>
      exec a \<lparr>ptr = 7, mem = (\<lambda>_. 0)\<rparr> = Some (add_cell (- 1) \<lparr>ptr = 7, mem = (\<lambda>_. 0)\<rparr>))"
proof -
  have w1: "\<exists>a c1 src1. compile_step create_compiler (source_at ''+++'' 0) = Inr (c1, src1) \<and>
      output_f c1 = [a] \<and> a = Addb 3 \<and>
      render a = ''    addb $3, (%r12)    # + x3'' @ [CHR 0x0A] \<and>
      exec a \<lparr>ptr = 7, mem = (\<lambda>_. 254)\<rparr> = Some (add_cell 3 \<lparr>ptr = 7, mem = (\<lambda>_. 254)\<rparr>)"
  proof -
    have h1: "length ''+++'' < (2::nat) ^ 30" by simp
    have h2: "(0::nat) < length ''+++''" by simp
    have h3: "foldable (''+++'' ! 0)" by (simp add: foldable_def)
    have h4: "(3::nat) = length (takeWhile (\<lambda>x. x = ''+++'' ! 0) (drop 0 ''+++''))" by simp
    from single_add_sub_or_unit_instruction[OF h1 h2 h3 h4, of create_compiler
        "\<lparr>ptr = 7, mem = (\<lambda>_. 254)\<rparr>"]
    show ?thesis
    proof (elim exE conjE, goal_cases)
      case (1 a c1 src1)
      have a: "a = Addb 3" using 1(3) by (simp add: spec_add_sub_by_n_def)
      have "(case compile_step create_compiler (source_at ''+++'' 0) of
          Inl e \<Rightarrow> [] | Inr (c2, src2) \<Rightarrow> output_f c2) = [Addb 3]"
        by code_simp
      then have out: "output_f c1 = [a]" using 1(1) a by simp
      have "render (Addb 3) = ''    addb $3, (%r12)    # + x3'' @ [CHR 0x0A]"
        by code_simp
      then have r: "render a = ''    addb $3, (%r12)    # + x3'' @ [CHR 0x0A]"
        using 1(4) a by simp
      have e: "exec a \<lparr>ptr = 7, mem = (\<lambda>_. 254)\<rparr> = Some (add_cell 3 \<lparr>ptr = 7, mem = (\<lambda>_. 254)\<rparr>)"
        using 1(5) by (simp add: delta_effect_def)
      show ?case using 1(1) out a r e by blast
    qed
  qed
  have w2: "\<exists>a c1 src1. compile_step create_compiler (source_at ''<<-'' 0) = Inr (c1, src1) \<and>
      output_f c1 = [a] \<and> a = Subq 2 \<and>
      render a = ''    subq $2, %r12      # < x2'' @ [CHR 0x0A] \<and>
      exec a \<lparr>ptr = 7, mem = (\<lambda>_. 0)\<rparr> = Some (move_ptr (- 2) \<lparr>ptr = 7, mem = (\<lambda>_. 0)\<rparr>)"
  proof -
    have h1: "length ''<<-'' < (2::nat) ^ 30" by simp
    have h2: "(0::nat) < length ''<<-''" by simp
    have h3: "foldable (''<<-'' ! 0)" by (simp add: foldable_def)
    have h4: "(2::nat) = length (takeWhile (\<lambda>x. x = ''<<-'' ! 0) (drop 0 ''<<-''))" by simp
    from single_add_sub_or_unit_instruction[OF h1 h2 h3 h4, of create_compiler
        "\<lparr>ptr = 7, mem = (\<lambda>_. 0)\<rparr>"]
    show ?thesis
    proof (elim exE conjE, goal_cases)
      case (1 a c1 src1)
      have a: "a = Subq 2" using 1(3) by (simp add: spec_add_sub_by_n_def)
      have "(case compile_step create_compiler (source_at ''<<-'' 0) of
          Inl e \<Rightarrow> [] | Inr (c2, src2) \<Rightarrow> output_f c2) = [Subq 2]"
        by code_simp
      then have out: "output_f c1 = [a]" using 1(1) a by simp
      have "render (Subq 2) = ''    subq $2, %r12      # < x2'' @ [CHR 0x0A]"
        by code_simp
      then have r: "render a = ''    subq $2, %r12      # < x2'' @ [CHR 0x0A]"
        using 1(4) a by simp
      have e: "exec a \<lparr>ptr = 7, mem = (\<lambda>_. 0)\<rparr> = Some (move_ptr (- 2) \<lparr>ptr = 7, mem = (\<lambda>_. 0)\<rparr>)"
        using 1(5) by (simp add: delta_effect_def)
      show ?case using 1(1) out a r e by blast
    qed
  qed
  have w3: "\<exists>a c1 src1. compile_step create_compiler (source_at ''<<-'' 2) = Inr (c1, src1) \<and>
      output_f c1 = [a] \<and> a = Decb \<and>
      render a = ''    decb (%r12)         # -'' @ [CHR 0x0A] \<and>
      exec a \<lparr>ptr = 7, mem = (\<lambda>_. 0)\<rparr> = Some (add_cell (- 1) \<lparr>ptr = 7, mem = (\<lambda>_. 0)\<rparr>)"
  proof -
    have h1: "length ''<<-'' < (2::nat) ^ 30" by simp
    have h2: "(2::nat) < length ''<<-''" by simp
    have h3: "foldable (''<<-'' ! 2)" by (simp add: foldable_def)
    have h4: "(1::nat) = length (takeWhile (\<lambda>x. x = ''<<-'' ! 2) (drop 2 ''<<-''))" by simp
    from single_add_sub_or_unit_instruction[OF h1 h2 h3 h4, of create_compiler
        "\<lparr>ptr = 7, mem = (\<lambda>_. 0)\<rparr>"]
    show ?thesis
    proof (elim exE conjE, goal_cases)
      case (1 a c1 src1)
      have a: "a = Decb" using 1(3) by simp
      have "(case compile_step create_compiler (source_at ''<<-'' 2) of
          Inl e \<Rightarrow> [] | Inr (c2, src2) \<Rightarrow> output_f c2) = [Decb]"
        by code_simp
      then have out: "output_f c1 = [a]" using 1(1) a by simp
      have "render Decb = ''    decb (%r12)         # -'' @ [CHR 0x0A]"
        by code_simp
      then have r: "render a = ''    decb (%r12)         # -'' @ [CHR 0x0A]"
        using 1(4) a by simp
      have e: "exec a \<lparr>ptr = 7, mem = (\<lambda>_. 0)\<rparr> = Some (add_cell (- 1) \<lparr>ptr = 7, mem = (\<lambda>_. 0)\<rparr>)"
        using 1(5) by (simp add: delta_effect_def)
      show ?case using 1(1) out a r e by blast
    qed
  qed
  show ?thesis
    using w1 w2 w3 by (intro conjI)
qed

text \<open>The claim as the specification states it, for every \<open>n \<ge> 1\<close> including \<open>n = 1\<close>,
  fails at \<open>n = 1\<close>: for the source \<^verbatim>\<open>+\<close> the compiler writes \<^verbatim>\<open>incb (%r12)\<close>, not the
  add-by-one instruction \<^verbatim>\<open>addb $1, (%r12)\<close>.\<close>

theorem single_add_sub_counterexample:
  "length ''+'' < (2::nat) ^ 30 \<and> (0::nat) < length ''+'' \<and> foldable (''+'' ! 0) \<and>
   length (takeWhile (\<lambda>x. x = ''+'' ! 0) (drop 0 ''+'')) = 1 \<and>
   (case compile_step create_compiler (source_at ''+'' 0) of
      Inl e \<Rightarrow> [] | Inr (c1, src1) \<Rightarrow> output_f c1) = [Incb] \<and>
   [Incb] \<noteq> output_f create_compiler @ [spec_add_sub_by_n (''+'' ! 0) 1] \<and>
   render Incb = ''    incb (%r12)         # +'' @ [CHR 0x0A] \<and>
   render (spec_add_sub_by_n (''+'' ! 0) 1) = ''    addb $1, (%r12)    # + x1'' @ [CHR 0x0A] \<and>
   emission (bfc_main ''+'')
     \<noteq> (None, render Header @ render (spec_add_sub_by_n (''+'' ! 0) 1) @ render Footer)"
proof -
  have h: "length ''+'' < (2::nat) ^ 30 \<and> (0::nat) < length ''+'' \<and> foldable (''+'' ! 0) \<and>
    length (takeWhile (\<lambda>x. x = ''+'' ! 0) (drop 0 ''+'')) = 1"
    by (simp add: foldable_def)
  have s: "(case compile_step create_compiler (source_at ''+'' 0) of
      Inl e \<Rightarrow> [] | Inr (c1, src1) \<Rightarrow> output_f c1) = [Incb]"
    by code_simp
  have d: "[Incb] \<noteq> output_f create_compiler @ [spec_add_sub_by_n (''+'' ! 0) 1]"
    by code_simp
  have r1: "render Incb = ''    incb (%r12)         # +'' @ [CHR 0x0A]"
    by code_simp
  have r2: "render (spec_add_sub_by_n (''+'' ! 0) 1) = ''    addb $1, (%r12)    # + x1'' @ [CHR 0x0A]"
    by code_simp
  have e: "emission (bfc_main ''+'')
     \<noteq> (None, render Header @ render (spec_add_sub_by_n (''+'' ! 0) 1) @ render Footer)"
    by code_simp
  show ?thesis
    using h s d r1 r2 e by (intro conjI) blast+
qed

lemma run_asm_append:
  "run_asm (xs @ ys) m = (case run_asm xs m of None \<Rightarrow> None | Some m1 \<Rightarrow> run_asm ys m1)"
  by (induction xs arbitrary: m) (auto split: option.splits)

lemma takeWhile_replicate_eq:
  "takeWhile (\<lambda>x. x = ch) xs = replicate (length (takeWhile (\<lambda>x. x = ch) xs)) ch"
  by (induction xs) auto

lemma run_split:
  "ch # rest = replicate (Suc (length (takeWhile (\<lambda>x. x = ch) rest))) ch
     @ dropWhile (\<lambda>x. x = ch) rest"
proof -
  have "ch # rest = ch # takeWhile (\<lambda>x. x = ch) rest @ dropWhile (\<lambda>x. x = ch) rest"
    by simp
  also have "\<dots> = ch # replicate (length (takeWhile (\<lambda>x. x = ch) rest)) ch
      @ dropWhile (\<lambda>x. x = ch) rest"
    using takeWhile_replicate_eq[of ch rest] by simp
  finally show ?thesis by simp
qed

lemma fold_unit_run:
  "fold unit_effect (ch # rest) m
     = fold unit_effect (dropWhile (\<lambda>x. x = ch) rest)
         (delta_effect ch (Suc (length (takeWhile (\<lambda>x. x = ch) rest))) m)"
  by (subst run_split) (simp only: fold_append fold_replicate o_apply unit_effect_funpow)

text \<open>The emitter on the folded operations of a source of \<^verbatim>\<open>+ - > <\<close> only.\<close>

lemma emit_ops_delta:
  assumes "\<forall>ch\<in>set bytes. foldable ch" and "length bytes < 2 ^ 31"
  shows "\<exists>body. emit_ops e (scan bytes) = Inr (e\<lparr>em_out := em_out e @ body\<rparr>) \<and>
     (\<forall>m. run_asm body m = Some (fold unit_effect bytes m))"
  using assms
proof (induction bytes arbitrary: e rule: scan.induct)
  case 1
  have "emit_ops e (scan []) = Inr (e\<lparr>em_out := em_out e @ []\<rparr>)" by simp
  moreover have "\<forall>m. run_asm [] m = Some (fold unit_effect [] m)" by simp
  ultimately show ?case by blast
next
  case (2 ch rest)
  let ?n = "Suc (length (takeWhile (\<lambda>x. x = ch) rest))"
  let ?rest = "dropWhile (\<lambda>x. x = ch) rest"
  have f: "foldable ch" using "2.prems" by simp
  obtain i where i: "classify ch = Some i"
    "\<And>e k. emit_op e (i, k) = Inr (e\<lparr>em_out := em_out e @ [folded_asm ch k]\<rparr>)"
    using foldable_classify[OF f] by blast
  have sub: "\<forall>c\<in>set ?rest. foldable c"
    using "2.prems"(1) set_dropWhileD[of _ "\<lambda>x. x = ch" rest] by auto
  have len: "length ?rest < 2 ^ 31"
    using "2.prems"(2) length_dropWhile_le[of "\<lambda>x. x = ch" rest] by simp
  define e1 where "e1 = e\<lparr>em_out := em_out e @ [folded_asm ch ?n]\<rparr>"
  obtain body where body: "emit_ops e1 (scan ?rest) = Inr (e1\<lparr>em_out := em_out e1 @ body\<rparr>)"
      "\<forall>m. run_asm body m = Some (fold unit_effect ?rest m)"
    using "2.IH"(2)[OF i(1) f sub len, of e1] by blast
  have n31: "?n < 2 ^ 31"
    using "2.prems"(2) length_takeWhile_le[of "\<lambda>x. x = ch" rest] by simp
  have ex: "exec (folded_asm ch ?n) m = Some (delta_effect ch ?n m)" for m
    by (rule exec_folded_asm[OF f _ n31]) simp
  have "emit_ops e (scan (ch # rest)) = Inr (e\<lparr>em_out := em_out e @ folded_asm ch ?n # body\<rparr>)"
    using i f body(1) by (simp add: e1_def)
  moreover have "\<forall>m. run_asm (folded_asm ch ?n # body) m = Some (fold unit_effect (ch # rest) m)"
    using ex body(2) by (simp only: fold_unit_run run_asm.simps) simp
  ultimately show ?case by blast
qed

lemma emit_unfolded_delta:
  assumes "\<forall>ch\<in>set bytes. foldable ch"
  shows "\<exists>body. emit_unfolded c bytes = Inr (c\<lparr>output_f := output_f c @ body\<rparr>) \<and>
     length body = length bytes \<and>
     (\<forall>m. run_asm body m = Some (fold unit_effect bytes m))"
  using assms
proof (induction bytes arbitrary: c)
  case Nil
  have "emit_unfolded c [] = Inr (c\<lparr>output_f := output_f c @ []\<rparr>)" by simp
  then show ?case by fastforce
next
  case (Cons ch rest)
  then have f: "foldable ch" by simp
  obtain body where body: "emit_unfolded (emit c (folded_asm ch 1)) rest
        = Inr ((emit c (folded_asm ch 1))\<lparr>output_f := output_f (emit c (folded_asm ch 1)) @ body\<rparr>)"
      "length body = length rest"
      "\<forall>m. run_asm body m = Some (fold unit_effect rest m)"
    using Cons.IH[of "emit c (folded_asm ch 1)"] Cons.prems by auto
  have ex: "exec (folded_asm ch 1) m = Some (unit_effect ch m)" for m
    using exec_folded_asm[OF f, where n = 1 and m = m]
      unit_effect_funpow[where ch = ch and n = 1 and m = m] by simp
  have "emit_unfolded c (ch # rest) = Inr (c\<lparr>output_f := output_f c @ folded_asm ch 1 # body\<rparr>)"
    using body(1) compile_instruction_foldable[OF f, of c] by (simp add: emit_def)
  moreover have "\<forall>m. run_asm (folded_asm ch 1 # body) m = Some (fold unit_effect (ch # rest) m)"
    using ex body(3) by simp
  ultimately show ?case using body(2) by fastforce
qed

lemma fold_transparent_source:
  assumes small: "length bytes < 2 ^ 30" and delta: "\<forall>ch\<in>set bytes. foldable ch"
  shows "\<exists>c1 src1 c2 folded unfolded.
     compile_loop (emit_header create_compiler) (read_source bytes) = Inr (c1, src1) \<and>
     output_f c1 = [Header] @ folded \<and>
     emit_unfolded (emit_header create_compiler) bytes = Inr c2 \<and>
     output_f c2 = [Header] @ unfolded \<and> length unfolded = length bytes \<and>
     run_asm folded m = run_asm unfolded m \<and>
     run_asm folded m = Some (fold unit_effect bytes m)"
proof -
  let ?c0 = "emit_header create_compiler"
  have out0: "output_f ?c0 = [Header]"
    by (simp add: emit_header_def create_compiler_def)
  have "length bytes < 2 ^ 31" using small by simp
  from emit_ops_delta[OF delta this, of begin_emitter]
  obtain folded where folded:
      "emit_ops begin_emitter (scan bytes) = Inr (begin_emitter\<lparr>em_out := em_out begin_emitter @ folded\<rparr>)"
      "\<forall>m. run_asm folded m = Some (fold unit_effect bytes m)"
    by blast
  from emit_unfolded_delta[OF delta, of ?c0]
  obtain unfolded where unfolded:
      "emit_unfolded ?c0 bytes = Inr (?c0\<lparr>output_f := output_f ?c0 @ unfolded\<rparr>)"
      "length unfolded = length bytes"
      "\<forall>m. run_asm unfolded m = Some (fold unit_effect bytes m)"
    by blast
  note loop = compile_loop_pipeline[OF loop_inv_begin[OF small]]
  obtain c1 src1 where c1: "compile_loop ?c0 (read_source bytes) = Inr (c1, src1)"
      "emitter_of c1 = begin_emitter\<lparr>em_out := em_out begin_emitter @ folded\<rparr>"
    using loop folded(1)
    by (cases "compile_loop ?c0 (read_source bytes)")
       (auto simp: emitter_of_begin remaining_read_source[OF small])
  have "output_f c1 = [Header] @ folded"
    using c1(2) by (simp add: emitter_of_def begin_emitter_def)
  then show ?thesis
    using c1(1) unfolded folded(2) out0 by simp
qed

lemma fold_transparent_run:
  assumes small: "length bytes < 2 ^ 30" and p: "p < length bytes"
    and f: "foldable (bytes ! p)"
    and n: "n = length (takeWhile (\<lambda>x. x = bytes ! p) (drop p bytes))"
  shows "\<exists>a c1 src1 c2 units.
     compile_step c (source_at bytes p) = Inr (c1, src1) \<and> output_f c1 = output_f c @ [a] \<and>
     emit_unfolded c (replicate n (bytes ! p)) = Inr c2 \<and>
     output_f c2 = output_f c @ units \<and> length units = n \<and>
     exec a m = run_asm units m \<and>
     run_asm units m = Some ((unit_effect (bytes ! p) ^^ n) m)"
proof -
  let ?ch = "bytes ! p"
  note mx = run_maximal[OF p n]
  note sa = source_at_facts[OF small less_imp_le[OF p]]
  have d: "drop p bytes = ?ch # drop (Suc p) bytes"
    using p by (simp add: Cons_nth_drop_Suc)
  have n': "n = Suc (length (takeWhile (\<lambda>x. x = ?ch) (drop (Suc p) bytes)))"
    unfolding n by (subst d) simp
  have rem: "remaining (source_at bytes p) = ?ch # drop (Suc p) bytes"
    using sa(4) d by simp
  have small': "unat (length_s (source_at bytes p)) < 2 ^ 30"
    using sa(1) small by simp
  note st = compile_step_foldable(2)[OF sa(3) small' rem f n', of c]
  have "n < 2 ^ 31" using mx(2) small by simp
  then have ex: "exec (folded_asm ?ch n) m = Some (delta_effect ?ch n m)"
    using mx(1) by (intro exec_folded_asm[OF f]) simp_all
  have "\<forall>x\<in>set (replicate n ?ch). foldable x" using f by simp
  from emit_unfolded_delta[OF this, of c]
  obtain units where units:
      "emit_unfolded c (replicate n ?ch) = Inr (c\<lparr>output_f := output_f c @ units\<rparr>)"
      "length units = n"
      "\<forall>m. run_asm units m = Some (fold unit_effect (replicate n ?ch) m)"
    by auto
  have "run_asm units m = Some ((unit_effect ?ch ^^ n) m)"
    using units(3) by (simp add: fold_replicate)
  then show ?thesis
    using st ex units(1,2) by (simp add: unit_effect_funpow)
qed

text \<open>
  C3. At every run of \<open>n\<close> bytes \<^verbatim>\<open>+\<close>, \<^verbatim>\<open>-\<close>, \<^verbatim>\<open>>\<close> or \<^verbatim>\<open><\<close> of any source, the one
  instruction the compiler writes for the run has the same effect, on every machine
  state, as the \<open>n\<close> unit instructions that \<^verbatim>\<open>compile_instruction\<close> writes when the bytes
  of the run are handed to it one by one, namely the unit operation \<open>n\<close> times: cells
  modulo 256, the pointer in exact integers. For a source of such bytes only, the whole
  folded emission and the whole unfolded emission have the same effect.
\<close>

theorem fold_transparent:
  assumes small: "length bytes < 2 ^ 30"
  shows "(\<forall>p n c m. p < length bytes \<and> foldable (bytes ! p) \<and>
            n = length (takeWhile (\<lambda>x. x = bytes ! p) (drop p bytes)) \<longrightarrow>
          (\<exists>a c1 src1 c2 units.
             compile_step c (source_at bytes p) = Inr (c1, src1) \<and>
             output_f c1 = output_f c @ [a] \<and>
             emit_unfolded c (replicate n (bytes ! p)) = Inr c2 \<and>
             output_f c2 = output_f c @ units \<and> length units = n \<and>
             exec a m = run_asm units m \<and>
             run_asm units m = Some ((unit_effect (bytes ! p) ^^ n) m))) \<and>
     ((\<forall>ch\<in>set bytes. foldable ch) \<longrightarrow>
        (\<forall>m. \<exists>c1 src1 c2 folded unfolded.
           compile_loop (emit_header create_compiler) (read_source bytes) = Inr (c1, src1) \<and>
           output_f c1 = [Header] @ folded \<and>
           emit_unfolded (emit_header create_compiler) bytes = Inr c2 \<and>
           output_f c2 = [Header] @ unfolded \<and> length unfolded = length bytes \<and>
           run_asm folded m = run_asm unfolded m \<and>
           run_asm folded m = Some (fold unit_effect bytes m)))"
  using fold_transparent_run[OF small] fold_transparent_source[OF small] by blast

theorem fold_transparent_witness:
  "(\<exists>c1 src1 c2.
     compile_loop (emit_header create_compiler) (read_source ''+++<<'') = Inr (c1, src1) \<and>
     output_f c1 = [Header, Addb 3, Subq 2] \<and>
     emit_unfolded (emit_header create_compiler) ''+++<<'' = Inr c2 \<and>
     output_f c2 = [Header, Incb, Incb, Incb, Decq, Decq] \<and>
     run_asm [Addb 3, Subq 2] \<lparr>ptr = 5, mem = (\<lambda>_. 254)\<rparr>
       = run_asm [Incb, Incb, Incb, Decq, Decq] \<lparr>ptr = 5, mem = (\<lambda>_. 254)\<rparr>) \<and>
   (\<exists>c1 src1 c2.
     compile_step create_compiler (source_at ''.+++<<'' 1) = Inr (c1, src1) \<and>
     output_f c1 = [Addb 3] \<and>
     emit_unfolded create_compiler ''+++'' = Inr c2 \<and> output_f c2 = [Incb, Incb, Incb] \<and>
     exec (Addb 3) \<lparr>ptr = 5, mem = (\<lambda>_. 254)\<rparr>
       = run_asm [Incb, Incb, Incb] \<lparr>ptr = 5, mem = (\<lambda>_. 254)\<rparr>)"
proof -
  let ?m = "\<lparr>ptr = 5, mem = (\<lambda>_. 254)\<rparr>"
  have h1: "length ''+++<<'' < (2::nat) ^ 30" by simp
  have h2: "\<forall>ch\<in>set ''+++<<''. foldable ch" by (simp add: foldable_def)
  have a: "compile_loop (emit_header create_compiler) (read_source ''+++<<'')
      = Inr (emit (emit (emit_header create_compiler) (Addb 3)) (Subq 2),
             (read_source ''+++<<'')\<lparr>position := 5\<rparr>)"
    by code_simp
  have b: "emit_unfolded (emit_header create_compiler) ''+++<<''
      = Inr (emit (emit (emit (emit (emit (emit_header create_compiler) Incb) Incb) Incb) Decq) Decq)"
    by code_simp
  have c: "output_f (emit_header create_compiler) = [Header]"
    by (simp add: emit_header_def create_compiler_def)
  have first: "\<exists>c1 src1 c2.
     compile_loop (emit_header create_compiler) (read_source ''+++<<'') = Inr (c1, src1) \<and>
     output_f c1 = [Header, Addb 3, Subq 2] \<and>
     emit_unfolded (emit_header create_compiler) ''+++<<'' = Inr c2 \<and>
     output_f c2 = [Header, Incb, Incb, Incb, Decq, Decq] \<and>
     run_asm [Addb 3, Subq 2] ?m = run_asm [Incb, Incb, Incb, Decq, Decq] ?m"
    using fold_transparent[OF h1, THEN conjunct2, THEN mp, OF h2, THEN spec, of ?m]
    unfolding a b by (simp add: c)
  have g1: "length ''.+++<<'' < (2::nat) ^ 30" by simp
  have g2: "(1::nat) < length ''.+++<<'' \<and> foldable (''.+++<<'' ! 1) \<and>
      (3::nat) = length (takeWhile (\<lambda>x. x = ''.+++<<'' ! 1) (drop 1 ''.+++<<''))"
    by (simp add: foldable_def)
  have d: "compile_step create_compiler (source_at ''.+++<<'' 1)
      = Inr (emit create_compiler (Addb 3), source_at ''.+++<<'' 4)"
    by code_simp
  have e: "emit_unfolded create_compiler (replicate 3 (''.+++<<'' ! 1))
      = Inr (emit (emit (emit create_compiler Incb) Incb) Incb)"
    by code_simp
  have r: "replicate 3 (''.+++<<'' ! 1) = ''+++''" by (simp add: numeral_3_eq_3)
  have o: "output_f create_compiler = []" by (simp add: create_compiler_def)
  from fold_transparent[OF g1, THEN conjunct1, THEN spec, THEN spec, THEN spec, THEN spec,
        THEN mp, OF g2, of create_compiler ?m]
  obtain a c1 src1 c2 units where w:
      "compile_step create_compiler (source_at ''.+++<<'' 1) = Inr (c1, src1)"
      "output_f c1 = output_f create_compiler @ [a]"
      "emit_unfolded create_compiler (replicate 3 (''.+++<<'' ! 1)) = Inr c2"
      "output_f c2 = output_f create_compiler @ units"
      "exec a ?m = run_asm units ?m"
    by blast
  have a: "a = Addb 3" using w(1,2) unfolding d by (auto simp: o)
  have u: "units = [Incb, Incb, Incb]" using w(3,4) unfolding e by (auto simp: o)
  have second: "\<exists>c1 src1 c2.
     compile_step create_compiler (source_at ''.+++<<'' 1) = Inr (c1, src1) \<and>
     output_f c1 = [Addb 3] \<and>
     emit_unfolded create_compiler ''+++'' = Inr c2 \<and> output_f c2 = [Incb, Incb, Incb] \<and>
     exec (Addb 3) ?m = run_asm [Incb, Incb, Incb] ?m"
    using w unfolding a u r o by auto
  show ?thesis
    using first second by blast
qed

subsection \<open>Brackets, labels and the loop stack\<close>

lemma brackets_append:
  "brackets s (xs @ ys) = (case brackets s xs of None \<Rightarrow> None | Some s1 \<Rightarrow> brackets s1 ys)"
  by (induction s xs rule: brackets.induct) (auto split: list.splits)

lemma brackets_inert:
  assumes "CHR ''['' \<notin> set xs" and "CHR '']'' \<notin> set xs"
  shows "brackets s xs = Some s"
  using assms by (induction s xs rule: brackets.induct) auto

lemma brackets_replicate:
  assumes "ch \<noteq> CHR ''[''" and "ch \<noteq> CHR '']''"
  shows "brackets s (replicate n ch @ ys) = brackets s ys"
  using assms by (simp add: brackets_append brackets_inert)

lemma brackets_depth:
  assumes "brackets (k, st) xs = Some (k1, st1)"
  shows "k1 = k + count_list xs CHR ''['' \<and>
     int (length st1) = int (length st) + nesting_depth xs"
  using assms
proof (induction xs arbitrary: k st)
  case Nil
  then show ?case by (simp add: nesting_depth_def)
next
  case (Cons ch rest)
  show ?case
  proof (cases "ch = CHR ''[''")
    case True
    then have "brackets (Suc k, k # st) rest = Some (k1, st1)"
      using Cons.prems by simp
    from Cons.IH[OF this] show ?thesis
      using True by (simp add: nesting_depth_def)
  next
    case nopen: False
    show ?thesis
    proof (cases "ch = CHR '']''")
      case True
      then obtain l ls where st: "st = l # ls" and r: "brackets (k, ls) rest = Some (k1, st1)"
        using Cons.prems by (cases st) simp_all
      from Cons.IH[OF r] show ?thesis
        using True st by (simp add: nesting_depth_def)
    next
      case False
      then have "brackets (k, st) rest = Some (k1, st1)"
        using Cons.prems nopen by simp
      from Cons.IH[OF this] show ?thesis
        using False nopen by (simp add: nesting_depth_def)
    qed
  qed
qed

lemma classify_brackets:
  "classify ch = Some LoopOpen \<longleftrightarrow> ch = CHR ''[''"
  "classify ch = Some LoopClose \<longleftrightarrow> ch = CHR '']''"
  by (auto simp: classify_def)

lemma classify_None_brackets:
  "classify ch = None \<Longrightarrow> ch \<noteq> CHR ''['' \<and> ch \<noteq> CHR '']''"
  by (auto simp: classify_def)

lemma foldable_not_bracket:
  "foldable ch \<Longrightarrow> ch \<noteq> CHR ''['' \<and> ch \<noteq> CHR '']''"
  by (auto simp: foldable_def)

lemma brackets_scan: "brackets s bytes = brackets_ops s (scan bytes)"
proof (induction bytes arbitrary: s rule: scan.induct)
  case 1
  show ?case by simp
next
  case (2 ch rest)
  obtain k st where s: "s = (k, st)" by (cases s)
  show ?case
  proof (cases "classify ch")
    case None
    then show ?thesis
      using "2.IH"(1)[OF None, of s] classify_None_brackets[OF None] by (simp add: s)
  next
    case (Some i)
    show ?thesis
    proof (cases "foldable ch")
      case True
      let ?n = "Suc (length (takeWhile (\<lambda>x. x = ch) rest))"
      note nb = foldable_not_bracket[OF True]
      have i: "i \<noteq> LoopOpen" "i \<noteq> LoopClose"
        using Some nb classify_brackets[of ch] by auto
      have "brackets s (ch # rest) = brackets s (dropWhile (\<lambda>x. x = ch) rest)"
        by (subst run_split) (rule brackets_replicate[OF conjunct1[OF nb] conjunct2[OF nb]])
      then show ?thesis
        using "2.IH"(2)[OF Some True, of s] Some True i by (simp add: s)
    next
      case False
      have "brackets s (ch # rest) = brackets_ops s ((i, 1) # scan rest)"
        using "2.IH"(3)[OF Some False] Some classify_brackets[of ch]
        by (auto simp: s split: list.splits)
      then show ?thesis
        using Some False by simp
    qed
  qed
qed

lemma start_labels_append: "start_labels (xs @ ys) = start_labels xs @ start_labels ys"
  by (induction xs rule: start_labels.induct) simp_all

lemma end_labels_append: "end_labels (xs @ ys) = end_labels xs @ end_labels ys"
  by (induction xs rule: end_labels.induct) simp_all

lemma emit_ops_append:
  "emit_ops e (xs @ ys) = (case emit_ops e xs of Inl err \<Rightarrow> Inl err | Inr e1 \<Rightarrow> emit_ops e1 ys)"
  by (induction xs arbitrary: e) (auto split: sum.splits)

lemma emit_op_plain:
  assumes "i \<noteq> LoopOpen" and "i \<noteq> LoopClose"
  shows "\<exists>a. emit_op e (i, n) = Inr (e\<lparr>em_out := em_out e @ [a]\<rparr>) \<and>
     start_labels [a] = [] \<and> end_labels [a] = [] \<and> a \<noteq> Footer \<and> a \<noteq> Header"
  using assms by (cases i) auto

lemma brackets_ops_mono:
  "brackets_ops (k, st) ops = Some (k1, st1) \<Longrightarrow> k \<le> k1"
proof (induction ops arbitrary: k st)
  case Nil
  then show ?case by simp
next
  case (Cons op ops)
  obtain i n where op: "op = (i, n)" by (cases op)
  show ?case
  proof (cases "i = LoopOpen")
    case True
    then have "brackets_ops (Suc k, k # st) ops = Some (k1, st1)"
      using Cons.prems op by simp
    from Cons.IH[OF this] show ?thesis by simp
  next
    case nopen: False
    show ?thesis
    proof (cases "i = LoopClose")
      case True
      then obtain l ls where "st = l # ls" "brackets_ops (k, ls) ops = Some (k1, st1)"
        using Cons.prems op by (cases st) simp_all
      then show ?thesis using Cons.IH by blast
    next
      case False
      then have "brackets_ops (k, st) ops = Some (k1, st1)"
        using Cons.prems op nopen by simp
      then show ?thesis using Cons.IH by blast
    qed
  qed
qed

text \<open>The emitter follows the bracket structure: it fails exactly at a \<^verbatim>\<open>]\<close> with no open
  loop, and otherwise its counter and stack are those of the bracket structure, the
  labels of the loop starts it wrote are the numbers allocated in order, and every
  label is either on the stack or was written once as a loop end.\<close>

lemma emit_ops_brackets:
  assumes "em_label e = of_nat k" and "em_stack e = map of_nat st"
  shows "case brackets_ops (k, st) ops of
     None \<Rightarrow> \<exists>e1. emit_ops e ops = Inl (UnmatchedClose, e1)
   | Some (k1, st1) \<Rightarrow> \<exists>e1. emit_ops e ops = Inr e1 \<and>
       em_label e1 = of_nat k1 \<and> em_stack e1 = map of_nat st1 \<and>
       start_labels (em_out e1) = start_labels (em_out e) @ map of_nat [k..<k1] \<and>
       (\<forall>l. count_list (end_labels (em_out e1)) l + count_list (map of_nat st1) l
          = count_list (end_labels (em_out e)) l + count_list (map of_nat st) l
            + count_list (map of_nat [k..<k1]) l)"
  using assms
proof (induction ops arbitrary: e k st)
  case Nil
  then show ?case by simp
next
  case (Cons op ops)
  note IH = Cons.IH and prems = Cons.prems
  obtain i n where op: "op = (i, n)" by (cases op)
  show ?case
  proof (cases "i = LoopOpen")
    case True
    define e1 where "e1 = \<lparr>em_out = em_out e @ [Loop_start (em_label e)], em_label = em_label e + 1,
          em_stack = em_label e # em_stack e\<rparr>"
    have step: "emit_op e op = Inr e1" using True op by (simp add: e1_def)
    have e1: "em_label e1 = of_nat (Suc k)" "em_stack e1 = map of_nat (k # st)"
      "start_labels (em_out e1) = start_labels (em_out e) @ [of_nat k]"
      "end_labels (em_out e1) = end_labels (em_out e)"
      using prems by (simp_all add: e1_def start_labels_append end_labels_append)
    have br: "brackets_ops (k, st) (op # ops) = brackets_ops (Suc k, k # st) ops"
      using True op by simp
    show ?thesis
    proof (cases "brackets_ops (Suc k, k # st) ops")
      case None
      then show ?thesis
        using IH[OF e1(1,2)] step br by simp
    next
      case (Some r)
      obtain k1 st1 where r: "r = (k1, st1)" by (cases r)
      have "Suc k \<le> k1" using Some r by (intro brackets_ops_mono) simp
      then have upt: "[k..<k1] = k # [Suc k..<k1]" by (simp add: upt_conv_Cons)
      show ?thesis
        using IH[OF e1(1,2)] step br Some r e1(3,4) upt by auto
    qed
  next
    case nopen: False
    show ?thesis
    proof (cases "i = LoopClose")
      case True
      show ?thesis
      proof (cases st)
        case Nil
        then show ?thesis
          using True op prems by simp
      next
        case (Cons l ls)
        define e1 where "e1 = e\<lparr>em_out := em_out e @ [Loop_end (of_nat l)], em_stack := map of_nat ls\<rparr>"
        have step: "emit_op e op = Inr e1"
          using True op Cons prems(2) by (simp add: e1_def)
        have e1: "em_label e1 = of_nat k" "em_stack e1 = map of_nat ls"
          "start_labels (em_out e1) = start_labels (em_out e)"
          "end_labels (em_out e1) = end_labels (em_out e) @ [of_nat l]"
          using prems by (simp_all add: e1_def start_labels_append end_labels_append)
        have br: "brackets_ops (k, st) (op # ops) = brackets_ops (k, ls) ops"
          using True op Cons by simp
        show ?thesis
          using IH[OF e1(1,2)] step br e1(3,4) Cons
          by (auto split: option.splits)
      qed
    next
      case False
      obtain a where a: "emit_op e op = Inr (e\<lparr>em_out := em_out e @ [a]\<rparr>)"
          "start_labels [a] = []" "end_labels [a] = []"
        using emit_op_plain[OF nopen False, of e n] op by blast
      define e1 where "e1 = e\<lparr>em_out := em_out e @ [a]\<rparr>"
      have e1: "em_label e1 = of_nat k" "em_stack e1 = map of_nat st"
        "start_labels (em_out e1) = start_labels (em_out e)"
        "end_labels (em_out e1) = end_labels (em_out e)"
        using prems a(2,3) by (simp_all add: e1_def start_labels_append end_labels_append)
      have br: "brackets_ops (k, st) (op # ops) = brackets_ops (k, st) ops"
        using False nopen op by simp
      show ?thesis
        using IH[OF e1(1,2)] a(1) br e1(3,4)
        by (auto simp: e1_def split: option.splits)
    qed
  qed
qed

lemma emit_op_out:
  "case emit_op e op of
     Inl (err, e1) \<Rightarrow> err = UnmatchedClose \<and> e1 = e
   | Inr e1 \<Rightarrow> \<exists>a. em_out e1 = em_out e @ [a] \<and> a \<noteq> Footer \<and> a \<noteq> Header"
proof -
  obtain i n where op: "op = (i, n)" by (cases op)
  show ?thesis
    unfolding op by (cases i) (auto split: list.splits)
qed

lemma emit_ops_out:
  assumes "Footer \<notin> set (em_out e)"
  shows "case emit_ops e ops of
     Inl (err, e1) \<Rightarrow> err = UnmatchedClose \<and> Footer \<notin> set (em_out e1)
   | Inr e1 \<Rightarrow> Footer \<notin> set (em_out e1)"
  using assms
proof (induction ops arbitrary: e)
  case Nil
  then show ?case by simp
next
  case (Cons op ops)
  show ?case
  proof (cases "emit_op e op")
    case (Inl x)
    then show ?thesis
      using emit_op_out[of e op] Cons.prems by (auto split: prod.splits)
  next
    case (Inr e1)
    then have "Footer \<notin> set (em_out e1)"
      using emit_op_out[of e op] Cons.prems by auto
    from Cons.IH[OF this] show ?thesis
      using Inr by simp
  qed
qed

text \<open>What the loop of \<^verbatim>\<open>compile\<close> leaves, for the bytes of a file, in terms of the
  bracket structure of the bytes.\<close>

lemma compile_loop_brackets:
  assumes small: "length bytes < 2 ^ 30"
  shows "case compile_loop (emit_header create_compiler) (read_source bytes) of
     Inl (err, c1) \<Rightarrow> err = UnmatchedClose \<and> brackets (0, []) bytes = None \<and>
       Footer \<notin> set (output_f c1)
   | Inr (c1, src1) \<Rightarrow> src1 = (read_source bytes)\<lparr>position := length_s (read_source bytes)\<rparr> \<and>
       stack_ok c1 \<and> Footer \<notin> set (output_f c1) \<and>
       (\<exists>k st. brackets (0, []) bytes = Some (k, st) \<and>
          label_counter c1 = of_nat k \<and> stack_of c1 = map of_nat st \<and>
          start_labels (output_f c1) = map of_nat [0..<k] \<and>
          (\<forall>l. count_list (end_labels (output_f c1)) l + count_list (map of_nat st) l
             = count_list (map of_nat [0..<k]) l))"
proof -
  let ?c0 = "emit_header create_compiler"
  note loop = compile_loop_pipeline[OF loop_inv_begin[OF small]]
  have b0: "em_label begin_emitter = of_nat 0" "em_stack begin_emitter = map of_nat []"
    "Footer \<notin> set (em_out begin_emitter)" "start_labels (em_out begin_emitter) = []"
    "end_labels (em_out begin_emitter) = []"
    by (simp_all add: begin_emitter_def)
  note br = emit_ops_brackets[OF b0(1,2), of "scan bytes", folded brackets_scan]
  note out = emit_ops_out[OF b0(3), of "scan bytes"]
  show ?thesis
  proof (cases "compile_loop ?c0 (read_source bytes)")
    case (Inl x)
    obtain err c1 where x: "x = (err, c1)" by (cases x)
    have ops: "emit_ops begin_emitter (scan bytes) = Inl (err, emitter_of c1)"
      using loop Inl x by (simp add: emitter_of_begin remaining_read_source[OF small])
    then have "brackets (0, []) bytes = None"
      using br by (cases "brackets (0, []) bytes") auto
    then show ?thesis
      using Inl x out ops by (simp add: emitter_of_def)
  next
    case (Inr y)
    obtain c1 src1 where y: "y = (c1, src1)" by (cases y)
    have ops: "emit_ops begin_emitter (scan bytes) = Inr (emitter_of c1)"
      and rest: "stack_ok c1" "src1 = (read_source bytes)\<lparr>position := length_s (read_source bytes)\<rparr>"
      using loop Inr y by (simp_all add: emitter_of_begin remaining_read_source[OF small])
    obtain k st where kst: "brackets (0, []) bytes = Some (k, st)"
      using br ops by (cases "brackets (0, []) bytes") auto
    have "label_counter c1 = of_nat k \<and> stack_of c1 = map of_nat st \<and>
          start_labels (output_f c1) = map of_nat [0..<k] \<and>
          (\<forall>l. count_list (end_labels (output_f c1)) l + count_list (map of_nat st) l
             = count_list (map of_nat [0..<k]) l)"
      using br ops kst b0(4,5) by (simp add: emitter_of_def)
    then show ?thesis
      using Inr y rest out ops kst by (simp add: emitter_of_def)
  qed
qed

text \<open>
  C5. When the loop of \<^verbatim>\<open>compile\<close> has consumed the whole source (the cursor is at the
  length), a non-empty loop stack makes the program exit with the message for an
  unmatched \<^verbatim>\<open>[\<close>, and no footer has been written; with an empty stack the footer (the
  exit sequence with status 0 of \<open>render Footer\<close>) is appended and the program returns.
  The loop itself exits only for an unmatched \<^verbatim>\<open>]\<close>, so an unmatched \<^verbatim>\<open>[\<close> is reported at
  the end of the source only. The stack is non-empty exactly when more \<^verbatim>\<open>[\<close> than \<^verbatim>\<open>]\<close>
  were read.
\<close>

theorem end_of_stream:
  assumes small: "length bytes < 2 ^ 30"
  shows "case compile_loop (emit_header create_compiler) (read_source bytes) of
     Inl (err, c1) \<Rightarrow> err = UnmatchedClose \<and> bfc_main bytes = Inl (err, c1)
   | Inr (c1, src1) \<Rightarrow>
       position src1 = length_s src1 \<and> Footer \<notin> set (output_f c1) \<and>
       int (length (stack_of c1)) = nesting_depth bytes \<and>
       (if stack_of c1 \<noteq> [] then bfc_main bytes = Inl (UnmatchedOpen, c1)
        else bfc_main bytes = Inr (emit_footer c1, src1) \<and>
             output_f (emit_footer c1) = output_f c1 @ [Footer] \<and>
             emitted_text (output_f (emit_footer c1)) = emitted_text (output_f c1) @ render Footer)"
proof (cases "compile_loop (emit_header create_compiler) (read_source bytes)")
  case (Inl x)
  then show ?thesis
    using compile_loop_brackets[OF small]
    by (auto simp: bfc_main_def compile_def)
next
  case (Inr y)
  obtain c1 src1 where y: "y = (c1, src1)" by (cases y)
  note lb = compile_loop_brackets[OF small, unfolded Inr y, simplified]
  obtain k st where kst: "brackets (0, []) bytes = Some (k, st)" "stack_of c1 = map of_nat st"
    using lb by blast
  have depth: "int (length (stack_of c1)) = nesting_depth bytes"
    using brackets_depth[OF kst(1)] kst(2) by simp
  have top: "stack_of c1 = [] \<longleftrightarrow> \<not> 0 \<le>s loop_stack_top c1"
    using stack_of_empty_iff lb by blast
  have pos: "position src1 = length_s src1"
    using lb by simp
  have nf: "Footer \<notin> set (output_f c1)"
    using lb by simp
  show ?thesis
    unfolding Inr y using depth top pos nf Inr y
    by (simp add: bfc_main_def compile_def emit_footer_def emitted_text_def)
qed

theorem end_of_stream_witness:
  "(\<exists>c1. bfc_main ''['' = Inl (UnmatchedOpen, c1) \<and> output_f c1 = [Header, Loop_start 0]) \<and>
   (\<exists>c2 src2. bfc_main ''+'' = Inr (c2, src2) \<and> output_f c2 = [Header, Incb, Footer])"
proof -
  have h1: "length ''['' < (2::nat) ^ 30" and h2: "length ''+'' < (2::nat) ^ 30" by simp_all
  have a: "case compile_loop (emit_header create_compiler) (read_source ''['') of
      Inl e \<Rightarrow> False
    | Inr (c1, src1) \<Rightarrow> output_f c1 = [Header, Loop_start 0] \<and> stack_of c1 = [0]"
    by code_simp
  have b: "case compile_loop (emit_header create_compiler) (read_source ''+'') of
      Inl e \<Rightarrow> False
    | Inr (c1, src1) \<Rightarrow> output_f c1 = [Header, Incb] \<and> stack_of c1 = []"
    by code_simp
  have "\<exists>c1. bfc_main ''['' = Inl (UnmatchedOpen, c1) \<and> output_f c1 = [Header, Loop_start 0]"
    using end_of_stream[OF h1] a
    by (cases "compile_loop (emit_header create_compiler) (read_source ''['')") auto
  moreover have "\<exists>c2 src2. bfc_main ''+'' = Inr (c2, src2) \<and> output_f c2 = [Header, Incb, Footer]"
    using end_of_stream[OF h2] b
    by (cases "compile_loop (emit_header create_compiler) (read_source ''+'')") auto
  ultimately show ?thesis by blast
qed

lemma count_list_distinct:
  "distinct xs \<Longrightarrow> count_list xs x = (if x \<in> set xs then 1 else 0)"
  by (induction xs) auto

lemma sint_labels:
  assumes "k < 2 ^ 31"
  shows "map sint (map of_nat [0..<k] :: cint list) = map int [0..<k]"
  using assms by (auto intro!: sint_of_nat_small)

lemma brackets_count_le:
  "brackets (k, st) bytes = Some (k1, st1) \<Longrightarrow> k1 \<le> k + length bytes"
  using brackets_depth[of k st bytes k1 st1] count_le_length[of bytes "CHR ''[''"] by simp

lemma digit_value_dec_digit: "digit_value (dec_digit n) = n mod 10"
proof -
  define k where "k = n mod 10"
  have "k < 10" by (simp add: k_def)
  then have "k = 0 \<or> k = 1 \<or> k = 2 \<or> k = 3 \<or> k = 4 \<or> k = 5 \<or> k = 6 \<or> k = 7 \<or> k = 8 \<or> k = 9"
    by arith
  then have "digit_value (''0123456789'' ! k) = k"
    by (elim disjE) (simp_all add: digit_value_def)
  then show ?thesis by (simp add: k_def)
qed

lemma dec_digit_not_minus: "dec_digit n \<noteq> CHR ''-''"
proof -
  have "dec_digit n \<in> set ''0123456789''"
    unfolding dec_digit.simps by (rule nth_mem) simp
  then show ?thesis by auto
qed

lemma dec_value_dec_nat: "dec_value (dec_nat n) = n"
proof (induction n rule: dec_nat.induct)
  case (1 n)
  show ?case
  proof (cases "n < 10")
    case True
    then show ?thesis
      by (subst dec_nat.simps) (simp add: dec_value_def digit_value_dec_digit del: dec_digit.simps)
  next
    case False
    then have "dec_value (dec_nat (n div 10)) = n div 10" using 1 by simp
    then show ?thesis
      using False
      by (subst dec_nat.simps) (simp add: dec_value_def digit_value_dec_digit del: dec_digit.simps)
  qed
qed

lemma dec_nat_hd: "dec_nat n \<noteq> [] \<and> hd (dec_nat n) \<noteq> CHR ''-''"
proof (induction n rule: dec_nat.induct)
  case (1 n)
  show ?case
  proof (cases "n < 10")
    case True
    then show ?thesis
      using dec_digit_not_minus[of n] by (subst (1 2) dec_nat.simps) simp
  next
    case False
    then show ?thesis
      using 1 by (subst (1 2) dec_nat.simps) simp
  qed
qed

lemma fmt_d_inj: "fmt_d a = fmt_d b \<Longrightarrow> a = b"
proof -
  assume eq: "fmt_d a = fmt_d b"
  have neg: "sint w < 0 \<longleftrightarrow> hd (fmt_d w) = CHR ''-''" for w
    using dec_nat_hd[of "nat (sint w)"] by (simp add: fmt_d_def)
  have val: "int (dec_value (if sint w < 0 then tl (fmt_d w) else fmt_d w)) = \<bar>sint w\<bar>" for w
    by (simp add: fmt_d_def dec_value_dec_nat)
  have sg: "sint a < 0 \<longleftrightarrow> sint b < 0" using neg eq by simp
  have "\<bar>sint a\<bar> = int (dec_value (if sint a < 0 then tl (fmt_d a) else fmt_d a))"
    by (rule val[symmetric])
  also have "\<dots> = int (dec_value (if sint b < 0 then tl (fmt_d b) else fmt_d b))"
    by (simp only: eq sg)
  also have "\<dots> = \<bar>sint b\<bar>"
    by (rule val)
  finally have "\<bar>sint a\<bar> = \<bar>sint b\<bar>" .
  with sg have "sint a = sint b" by auto
  then show "a = b" by (rule signed_word_eqI)
qed

text \<open>
  C2. For a source with balanced brackets the program returns, and the loop starts it
  wrote carry the labels 0, 1, 2, ... in the order of the \<^verbatim>\<open>[\<close> of the source, one per
  \<^verbatim>\<open>[\<close>: strictly increasing, none twice. Every label has exactly one loop end and one
  loop start, and no loop end carries any other label. Different labels are printed as
  different numerals, so the names \<^verbatim>\<open>loop_start_k\<close> and \<^verbatim>\<open>loop_end_k\<close> in the text differ
  as the labels do.
\<close>

theorem labels_unique_paired:
  assumes small: "length bytes < 2 ^ 30"
    and bal: "brackets (0, []) bytes = Some (k, [])"
  shows "\<exists>c src. bfc_main bytes = Inr (c, src) \<and>
     k = count_list bytes CHR ''['' \<and> label_counter c = of_nat k \<and>
     start_labels (output_f c) = map of_nat [0..<k] \<and>
     map sint (start_labels (output_f c)) = map int [0..<k] \<and>
     sorted_wrt (<) (map sint (start_labels (output_f c))) \<and>
     distinct (start_labels (output_f c)) \<and>
     (\<forall>l. count_list (end_labels (output_f c)) l = count_list (start_labels (output_f c)) l) \<and>
     (\<forall>l\<in>set (start_labels (output_f c)).
        count_list (start_labels (output_f c)) l = 1 \<and> count_list (end_labels (output_f c)) l = 1) \<and>
     inj fmt_d"
proof (cases "compile_loop (emit_header create_compiler) (read_source bytes)")
  case (Inl x)
  then show ?thesis
    using compile_loop_brackets[OF small] bal by (auto split: prod.splits)
next
  case (Inr y)
  obtain c1 src1 where y: "y = (c1, src1)" by (cases y)
  note lb = compile_loop_brackets[OF small, unfolded Inr y, simplified]
  have c1: "stack_ok c1" "label_counter c1 = of_nat k" "stack_of c1 = []"
    "start_labels (output_f c1) = map of_nat [0..<k]"
    "\<forall>l. count_list (end_labels (output_f c1)) l = count_list (map of_nat [0..<k] :: cint list) l"
    using lb bal by auto
  have "\<not> 0 \<le>s loop_stack_top c1"
    using stack_of_empty_iff[OF c1(1)] c1(3) by simp
  then have main: "bfc_main bytes = Inr (emit_footer c1, src1)"
    using Inr y by (simp add: bfc_main_def compile_def)
  let ?c = "emit_footer c1"
  have out: "start_labels (output_f ?c) = map of_nat [0..<k]"
    "end_labels (output_f ?c) = end_labels (output_f c1)" "label_counter ?c = of_nat k"
    using c1 by (simp_all add: emit_footer_def start_labels_append end_labels_append)
  have k: "k = count_list bytes CHR ''[''"
    using brackets_depth[OF bal] by simp
  have "k < 2 ^ 31"
    using brackets_count_le[OF bal] small by simp
  then have si: "map sint (map of_nat [0..<k] :: cint list) = map int [0..<k]"
    by (rule sint_labels)
  let ?S = "start_labels (output_f ?c)"
  have f1: "map sint ?S = map int [0..<k]"
    unfolding out(1) by (rule si)
  have f2: "sorted_wrt (<) (map sint ?S)"
    unfolding f1 by (simp add: sorted_wrt_map)
  have "distinct (map sint ?S)"
    unfolding f1 by (simp add: distinct_map)
  then have f3: "distinct ?S"
    by (rule distinct_map[THEN iffD1, THEN conjunct1])
  have f4: "\<forall>l. count_list (end_labels (output_f ?c)) l = count_list ?S l"
    unfolding out(1,2) by (rule c1(5))
  have f5: "\<forall>l\<in>set ?S. count_list ?S l = 1 \<and> count_list (end_labels (output_f ?c)) l = 1"
    using f4 count_list_distinct[OF f3] by simp
  have f6: "inj fmt_d"
    by (rule injI) (rule fmt_d_inj)
  show ?thesis
    using main k out(1,3) f1 f2 f3 f4 f5 f6 by blast
qed

theorem labels_unique_paired_witness:
  "\<exists>c src. bfc_main ''[[]][]'' = Inr (c, src) \<and>
     output_f c = [Header, Loop_start 0, Loop_start 1, Loop_end 1, Loop_end 0,
                   Loop_start 2, Loop_end 2, Footer] \<and>
     start_labels (output_f c) = [0, 1, 2] \<and>
     (\<forall>l. count_list (end_labels (output_f c)) l = count_list (start_labels (output_f c)) l)"
proof -
  have h1: "length ''[[]][]'' < (2::nat) ^ 30" by simp
  have h2: "brackets (0, []) ''[[]][]'' = Some (3, [])" by simp
  have a: "case bfc_main ''[[]][]'' of
      Inl e \<Rightarrow> False
    | Inr (c, src) \<Rightarrow> output_f c = [Header, Loop_start 0, Loop_start 1, Loop_end 1, Loop_end 0,
                   Loop_start 2, Loop_end 2, Footer]"
    by code_simp
  have u: "[0..<3] = [0, 1, 2]" by (simp add: upt_rec)
  show ?thesis
    using labels_unique_paired[OF h1 h2] a by (auto simp: u)
qed

subsection \<open>The loop stack at every scan position\<close>

lemma scan_state_loop:
  assumes "scan_state bytes c src"
  shows "compile_loop (emit_header create_compiler) (read_source bytes) = compile_loop c src"
  using assms
proof (induction rule: scan_state.induct)
  case start
  show ?case by simp
next
  case (step c src c1 src1)
  have "compile_loop c src = compile_loop c1 src1"
    using step.hyps(2,3) by (subst compile_loop.simps) simp
  then show ?case using step.IH by simp
qed

lemma take_run_scan:
  assumes cl: "classify ch = Some i"
    and n: "n = (if foldable ch then Suc (length (takeWhile (\<lambda>x. x = ch) rest)) else 1)"
  shows "scan (take n (ch # rest)) = [(i, n)]"
proof (cases "foldable ch")
  case True
  let ?run = "takeWhile (\<lambda>x. x = ch) rest"
  have n': "n = Suc (length ?run)" using True n by simp
  have "take (length ?run) rest = ?run"
    by (rule takeWhile_eq_take[symmetric])
  then have seg: "take n (ch # rest) = ch # ?run"
    unfolding n' by simp
  have "\<forall>x\<in>set ?run. x = ch"
    by (auto dest: set_takeWhileD)
  then have dw: "dropWhile (\<lambda>x. x = ch) ?run = []"
    by (simp only: dropWhile_eq_Nil_conv)
  have tw: "takeWhile (\<lambda>x. x = ch) ?run = ?run"
    by simp
  show ?thesis
    unfolding seg using True cl by (simp add: dw tw n')
next
  case False
  then show ?thesis using cl n by simp
qed

lemma at_cursor_start:
  "at_cursor bytes (emit_header create_compiler) (read_source bytes)"
proof -
  have "read_source bytes = source_at bytes 0"
    by (simp add: source_at_def read_source_def)
  moreover have "stack_ok (emit_header create_compiler)" "stack_of (emit_header create_compiler) = []"
    "label_counter (emit_header create_compiler) = of_nat 0"
    by (simp_all add: emit_header_def stack_ok_create stack_of_create) (simp add: create_compiler_def)
  ultimately show ?thesis
    unfolding at_cursor_def by (intro exI[of _ 0]) simp
qed

lemma at_cursor_step:
  assumes small: "length bytes < 2 ^ 30"
    and inv: "at_cursor bytes c src"
    and lt: "position src < length_s src"
    and st: "compile_step c src = Inr (c1, src1)"
  shows "at_cursor bytes c1 src1"
proof -
  obtain p k st where p: "p \<le> length bytes" "src = source_at bytes p" "stack_ok c"
      "length (stack_of c) \<le> p"
      "brackets (0, []) (take p bytes) = Some (k, st)"
      "label_counter c = of_nat k" "stack_of c = map of_nat st"
    using inv unfolding at_cursor_def by blast
  note sa = source_at_facts[OF small p(1), folded p(2)]
  have small': "unat (length_s src) < 2 ^ 30" using sa(1) small by simp
  have depth: "length (stack_of c) < 2 ^ 30" using p(4) p(1) small by simp
  obtain ch rest where rem: "remaining src = ch # rest"
    using remaining_Cons[OF sa(3) lt] by blast
  then have dr: "drop p bytes = ch # rest" using sa(4) by simp
  have ch: "code src ! unat (position src) = ch"
    using remaining_Cons[OF sa(3) lt] rem by simp
  have plt: "p < length bytes"
    using dr by (cases "p < length bytes") simp_all
  show ?thesis
  proof (cases "classify ch")
    case None
    have s1: "c1 = c" "src1 = source_at bytes (p + 1)"
      using compile_step_skip[OF None ch, of c] st source_at_advance[of bytes p 1]
      by (simp_all add: p(2))
    have "take (p + 1) bytes = take p bytes @ [ch]"
      using dr plt by (simp add: take_Suc_conv_app_nth Cons_nth_drop_Suc[symmetric])
    then have "brackets (0, []) (take (p + 1) bytes) = Some (k, st)"
      using p(5) classify_None_brackets[OF None] by (simp add: brackets_append)
    then show ?thesis
      unfolding at_cursor_def s1 using p plt
      by (intro exI[of _ "p + 1"]) auto
  next
    case (Some i)
    define n where "n = (if foldable ch then Suc (length (takeWhile (\<lambda>x. x = ch) rest)) else 1)"
    have n_le: "n \<le> length (drop p bytes)" and n_pos: "0 < n"
      unfolding dr n_def using length_takeWhile_le[of "\<lambda>x. x = ch" rest] by simp_all
    then have pn: "p + n \<le> length bytes" using plt by simp
    note abs = compile_step_abs[OF sa(3) small' rem p(3) depth Some n_def]
    obtain a where a: "emit_op (emitter_of c) (i, n) = Inr a"
      using abs st by (cases "emit_op (emitter_of c) (i, n)") auto
    then have s1: "src1 = source_at bytes (p + n)" "emitter_of c1 = a" "stack_ok c1"
      using abs st source_at_advance[of bytes p n] by (auto simp: p(2))
    have e: "em_label (emitter_of c) = of_nat k" "em_stack (emitter_of c) = map of_nat st"
      using p(6,7) by (simp_all add: emitter_of_def)
    have seg: "brackets (k, st) (take n (drop p bytes)) = brackets_ops (k, st) [(i, n)]"
      unfolding dr brackets_scan take_run_scan[OF Some n_def] ..
    obtain k1 st1 where k1: "brackets_ops (k, st) [(i, n)] = Some (k1, st1)"
        "em_label a = of_nat k1" "em_stack a = map of_nat st1"
      using emit_ops_brackets[OF e, of "[(i, n)]"] a
      by (cases "brackets_ops (k, st) [(i, n)]") auto
    have "take (p + n) bytes = take p bytes @ take n (drop p bytes)"
      by (rule take_add)
    then have br: "brackets (0, []) (take (p + n) bytes) = Some (k1, st1)"
      using p(5) seg k1(1) by (simp add: brackets_append)
    have "length (em_stack a) \<le> length (em_stack (emitter_of c)) + n"
      using emit_op_stack_length[OF a] n_pos by (simp split: if_splits)
    then have len: "length (stack_of c1) \<le> p + n"
      using s1(2) p(4) by (auto simp: emitter_of_def)
    have "label_counter c1 = of_nat k1" "stack_of c1 = map of_nat st1"
      using s1(2) k1(2,3) by (auto simp: emitter_of_def)
    then show ?thesis
      unfolding at_cursor_def s1(1) using pn s1(3) len br
      by (intro exI[of _ "p + n"]) auto
  qed
qed

lemma scan_state_at_cursor:
  assumes small: "length bytes < 2 ^ 30" and "scan_state bytes c src"
  shows "at_cursor bytes c src"
  using assms(2)
  by (induction rule: scan_state.induct) (auto intro: at_cursor_start at_cursor_step[OF small])

lemma brackets_sorted:
  assumes "brackets (k, st) xs = Some (k1, st1)"
    and "sorted_wrt (>) st" and "\<forall>l\<in>set st. l < k"
  shows "sorted_wrt (>) st1 \<and> (\<forall>l\<in>set st1. l < k1)"
  using assms
proof (induction xs arbitrary: k st)
  case Nil
  then show ?case by simp
next
  case (Cons ch rest)
  show ?case
  proof (cases "ch = CHR ''[''")
    case True
    then have "brackets (Suc k, k # st) rest = Some (k1, st1)"
      using Cons.prems(1) by simp
    moreover have "sorted_wrt (>) (k # st)" "\<forall>l\<in>set (k # st). l < Suc k"
      using Cons.prems(2,3) by auto
    ultimately show ?thesis by (rule Cons.IH)
  next
    case nopen: False
    show ?thesis
    proof (cases "ch = CHR '']''")
      case True
      then obtain l ls where st: "st = l # ls" and r: "brackets (k, ls) rest = Some (k1, st1)"
        using Cons.prems(1) by (cases st) simp_all
      have "sorted_wrt (>) ls" "\<forall>l\<in>set ls. l < k"
        using Cons.prems(2,3) st by auto
      with r show ?thesis by (rule Cons.IH)
    next
      case False
      then have "brackets (k, st) rest = Some (k1, st1)"
        using Cons.prems(1) nopen by simp
      then show ?thesis using Cons.prems(2,3) by (rule Cons.IH)
    qed
  qed
qed

text \<open>What an iteration does at a \<^verbatim>\<open>]\<close>.\<close>

lemma compile_step_close:
  assumes small: "length bytes < 2 ^ 30"
    and inv: "at_cursor bytes c src"
    and lt: "position src < length_s src"
    and close: "bytes ! unat (position src) = CHR '']''"
  shows "case stack_of c of
     [] \<Rightarrow> compile_step c src = Inl (UnmatchedClose, c)
   | l # ls \<Rightarrow> \<exists>c1 src1. compile_step c src = Inr (c1, src1) \<and>
       output_f c1 = output_f c @ [Loop_end l] \<and> stack_of c1 = ls \<and>
       label_counter c1 = label_counter c"
proof -
  obtain p where p: "p \<le> length bytes" "src = source_at bytes p" "stack_ok c"
      "length (stack_of c) \<le> p"
    using inv unfolding at_cursor_def by blast
  note sa = source_at_facts[OF small p(1), folded p(2)]
  have small': "unat (length_s src) < 2 ^ 30" using sa(1) small by simp
  have depth: "length (stack_of c) < 2 ^ 30" using p(4) p(1) small by simp
  obtain ch rest where rem: "remaining src = ch # rest"
    using remaining_Cons[OF sa(3) lt] by blast
  have plt: "p < length bytes"
    using rem sa(4) by (cases "p < length bytes") simp_all
  have "ch = bytes ! p"
    using rem sa(4) plt by (simp add: Cons_nth_drop_Suc[symmetric])
  then have ch: "ch = CHR '']''" using close sa(2) by simp
  have cl: "classify ch = Some LoopClose" and nf: "\<not> foldable ch"
    unfolding ch by (simp_all add: classify_def foldable_def)
  have n: "(1::nat) = (if foldable ch then Suc (length (takeWhile (\<lambda>x. x = ch) rest)) else 1)"
    using nf by simp
  note abs = compile_step_abs[OF sa(3) small' rem p(3) depth cl n]
  show ?thesis
  proof (cases "stack_of c")
    case Nil
    then show ?thesis using abs by (simp add: emitter_of_def)
  next
    case (Cons l ls)
    then show ?thesis using abs by (auto simp: emitter_of_def)
  qed
qed

text \<open>
  C1. At every head of the loop, for the bytes read so far (those before the cursor):
  the loop stack holds the labels of the loops that are open and not yet closed,
  innermost first, as many as the nesting depth (the \<^verbatim>\<open>[\<close> minus the \<^verbatim>\<open>]\<close> read); the
  labels on it decrease from the top, so the top is the loop opened last. An iteration
  at a \<^verbatim>\<open>]\<close> closes the loop on top: it writes the loop end for the top label and leaves
  the rest of the stack.
\<close>

theorem stack_tracks_nesting:
  assumes small: "length bytes < 2 ^ 30" and reach: "scan_state bytes c src"
  shows "\<exists>p k st. p \<le> length bytes \<and> unat (position src) = p \<and>
     brackets (0, []) (take p bytes) = Some (k, st) \<and>
     stack_of c = map of_nat st \<and> label_counter c = of_nat k \<and>
     int (length (stack_of c)) = nesting_depth (take p bytes) \<and>
     sorted_wrt (>) st \<and> (\<forall>l\<in>set st. l < k) \<and>
     (p < length bytes \<and> bytes ! p = CHR '']'' \<longrightarrow>
        (case st of
           [] \<Rightarrow> compile_step c src = Inl (UnmatchedClose, c)
         | l # ls \<Rightarrow> \<exists>c1 src1. compile_step c src = Inr (c1, src1) \<and>
             output_f c1 = output_f c @ [Loop_end (of_nat l)] \<and>
             stack_of c1 = map of_nat ls))"
proof -
  note inv = scan_state_at_cursor[OF small reach]
  obtain p k st where p: "p \<le> length bytes" "src = source_at bytes p"
      "brackets (0, []) (take p bytes) = Some (k, st)"
      "label_counter c = of_nat k" "stack_of c = map of_nat st"
    using inv unfolding at_cursor_def by blast
  note sa = source_at_facts[OF small p(1), folded p(2)]
  have depth: "int (length (stack_of c)) = nesting_depth (take p bytes)"
    using brackets_depth[OF p(3)] p(5) by simp
  have so: "sorted_wrt (>) st \<and> (\<forall>l\<in>set st. l < k)"
    using brackets_sorted[OF p(3)] by simp
  have cl: "case st of
           [] \<Rightarrow> compile_step c src = Inl (UnmatchedClose, c)
         | l # ls \<Rightarrow> \<exists>c1 src1. compile_step c src = Inr (c1, src1) \<and>
             output_f c1 = output_f c @ [Loop_end (of_nat l)] \<and>
             stack_of c1 = map of_nat ls"
    if "p < length bytes" "bytes ! p = CHR '']''"
  proof -
    have lt: "position src < length_s src"
      using that(1) sa(1,2) by (simp add: word_less_nat_alt)
    have "bytes ! unat (position src) = CHR '']''"
      using that(2) sa(2) by simp
    from compile_step_close[OF small inv lt this] show ?thesis
      using p(5) by (cases st) auto
  qed
  show ?thesis
    using p(1,3,4,5) sa(2) depth so cl by blast
qed

theorem stack_tracks_nesting_witness:
  "\<exists>c src. scan_state ''[[]'' c src \<and> position src = 2 \<and>
     brackets (0, []) (take 2 ''[[]'') = Some (2, [1, 0]) \<and>
     stack_of c = [1, 0] \<and> nesting_depth (take 2 ''[[]'') = 2 \<and>
     (\<exists>c1 src1. compile_step c src = Inr (c1, src1) \<and>
        output_f c1 = [Header, Loop_start 0, Loop_start 1, Loop_end 1] \<and> stack_of c1 = [0])"
proof -
  let ?b = "''[[]''"
  have h: "length ?b < (2::nat) ^ 30" by simp
  have r0: "scan_state ?b (emit_header create_compiler) (read_source ?b)"
    by (rule scan_state.start)
  have l0: "position (read_source ?b) < length_s (read_source ?b)"
    by (simp add: read_source_def)
  have a: "case compile_step (emit_header create_compiler) (read_source ?b) of
      Inl e \<Rightarrow> False
    | Inr (c1, s1) \<Rightarrow> position s1 = 1 \<and> position s1 < length_s s1 \<and>
        (case compile_step c1 s1 of
           Inl e \<Rightarrow> False
         | Inr (c2, s2) \<Rightarrow> position s2 = 2 \<and> output_f c2 = [Header, Loop_start 0, Loop_start 1])"
    by code_simp
  obtain c1 s1 where s1: "compile_step (emit_header create_compiler) (read_source ?b) = Inr (c1, s1)"
      "position s1 < length_s s1"
    and a2: "case compile_step c1 s1 of
           Inl e \<Rightarrow> False
         | Inr (c2, s2) \<Rightarrow> position s2 = 2 \<and> output_f c2 = [Header, Loop_start 0, Loop_start 1]"
    using a by (cases "compile_step (emit_header create_compiler) (read_source ?b)") auto
  have r1: "scan_state ?b c1 s1"
    by (rule scan_state.step[OF r0 l0 s1(1)])
  obtain c2 s2 where s2: "compile_step c1 s1 = Inr (c2, s2)" "position s2 = 2"
      "output_f c2 = [Header, Loop_start 0, Loop_start 1]"
    using a2 by (cases "compile_step c1 s1") auto
  have r2: "scan_state ?b c2 s2"
    by (rule scan_state.step[OF r1 s1(2) s2(1)])
  have b: "brackets (0, []) (take 2 ?b) = Some (2, [1, 0])" by simp
  have d: "nesting_depth (take 2 ?b) = 2" by (simp add: nesting_depth_def)
  have "\<exists>c1 src1. compile_step c2 s2 = Inr (c1, src1) \<and>
        output_f c1 = [Header, Loop_start 0, Loop_start 1, Loop_end 1] \<and> stack_of c1 = [0]"
    using stack_tracks_nesting[OF h r2] s2(2,3) b by auto
  moreover have "stack_of c2 = [1, 0]"
    using stack_tracks_nesting[OF h r2] s2(2) b by auto
  ultimately show ?thesis
    using r2 s2(2) b d by blast
qed

text \<open>
  C4. When the loop reaches a \<^verbatim>\<open>]\<close> with an empty loop stack, the iteration exits with
  the message for an unmatched \<^verbatim>\<open>]\<close> in the very state it was entered with, so nothing
  has been written for this \<^verbatim>\<open>]\<close>; the loop and the program end there with that state,
  so no later byte is processed. The bytes up to and including this \<^verbatim>\<open>]\<close> are the first
  prefix with an excess close.
\<close>

theorem unmatched_close_aborts:
  assumes small: "length bytes < 2 ^ 30" and reach: "scan_state bytes c src"
    and lt: "position src < length_s src"
    and close: "bytes ! unat (position src) = CHR '']''"
    and empty: "stack_of c = []"
  shows "compile_step c src = Inl (UnmatchedClose, c) \<and>
     compile_loop c src = Inl (UnmatchedClose, c) \<and>
     bfc_main bytes = Inl (UnmatchedClose, c) \<and>
     brackets (0, []) (take (unat (position src)) bytes) \<noteq> None \<and>
     brackets (0, []) (take (Suc (unat (position src))) bytes) = None"
proof -
  note inv = scan_state_at_cursor[OF small reach]
  have st: "compile_step c src = Inl (UnmatchedClose, c)"
    using compile_step_close[OF small inv lt close] empty by simp
  then have loop: "compile_loop c src = Inl (UnmatchedClose, c)"
    using lt by (subst compile_loop.simps) simp
  then have main: "bfc_main bytes = Inl (UnmatchedClose, c)"
    using scan_state_loop[OF reach] by (simp add: bfc_main_def compile_def)
  obtain p k st where p: "p \<le> length bytes" "src = source_at bytes p"
      "brackets (0, []) (take p bytes) = Some (k, st)" "stack_of c = map of_nat st"
    using inv unfolding at_cursor_def by blast
  note sa = source_at_facts[OF small p(1), folded p(2)]
  have plt: "p < length bytes"
    using lt sa(1,2) by (simp add: word_less_nat_alt)
  have "take (Suc p) bytes = take p bytes @ [CHR '']'']"
    using plt close sa(2) by (simp add: take_Suc_conv_app_nth)
  then have "brackets (0, []) (take (Suc p) bytes) = None"
    using p(3,4) empty by (simp add: brackets_append)
  then show ?thesis
    using st loop main p(3) sa(2) by simp
qed

theorem unmatched_close_aborts_witness:
  "\<exists>c src. scan_state ''+]+'' c src \<and> position src = 1 \<and> stack_of c = [] \<and>
     output_f c = [Header, Incb] \<and>
     compile_step c src = Inl (UnmatchedClose, c) \<and>
     bfc_main ''+]+'' = Inl (UnmatchedClose, c)"
proof -
  let ?b = "''+]+''"
  have h: "length ?b < (2::nat) ^ 30" by simp
  have r0: "scan_state ?b (emit_header create_compiler) (read_source ?b)"
    by (rule scan_state.start)
  have l0: "position (read_source ?b) < length_s (read_source ?b)"
    by (simp add: read_source_def)
  have a: "case compile_step (emit_header create_compiler) (read_source ?b) of
      Inl e \<Rightarrow> False
    | Inr (c1, s1) \<Rightarrow> position s1 = 1 \<and> position s1 < length_s s1 \<and>
        stack_of c1 = [] \<and> output_f c1 = [Header, Incb]"
    by code_simp
  obtain c1 s1 where s1: "compile_step (emit_header create_compiler) (read_source ?b) = Inr (c1, s1)"
      "position s1 = 1" "position s1 < length_s s1" "stack_of c1 = []" "output_f c1 = [Header, Incb]"
    using a by (cases "compile_step (emit_header create_compiler) (read_source ?b)") auto
  have r1: "scan_state ?b c1 s1"
    by (rule scan_state.step[OF r0 l0 s1(1)])
  have cl: "?b ! unat (position s1) = CHR '']''"
    by (simp add: s1(2))
  show ?thesis
    using unmatched_close_aborts[OF h r1 s1(3) cl s1(4)] r1 s1(2,4,5) by blast
qed

subsection \<open>Bytes that are not instructions\<close>

lemma emission_pipeline:
  assumes "length bytes < 2 ^ 30"
  shows "emission (bfc_main bytes) = emission_of (pipeline bytes)"
  using bfc_main_pipeline[OF assms]
  by (auto simp: emission_def emission_of_def emitter_of_def split: sum.splits)

lemma scan_run_step:
  assumes "foldable x"
  shows "scan (x # x # rest) = (case scan (x # rest) of [] \<Rightarrow> [] | (j, m) # ops \<Rightarrow> (j, Suc m) # ops)"
proof -
  obtain i where "classify x = Some i"
    using foldable_classify[OF assms] by blast
  then show ?thesis using assms by simp
qed

lemma scan_run_end:
  assumes "classify x = Some i" and "rest = [] \<or> hd rest \<noteq> x"
  shows "scan (x # rest) = (i, 1) # scan rest"
  using assms by (cases rest) auto

lemma no_split_gap_hd:
  assumes "no_split D (Some x) True ys" and "foldable x"
  shows "filter (\<lambda>y. \<not> D y) ys = [] \<or> hd (filter (\<lambda>y. \<not> D y) ys) \<noteq> x"
  using assms by (induction ys) (auto split: if_splits)

text \<open>Removing bytes that are not instructions, where that splits no run, leaves the folded
  operations as they were.\<close>

lemma scan_filter:
  assumes D: "\<And>x. D x \<Longrightarrow> classify x = None"
    and ns: "no_split D prev gap bytes"
  shows "scan bytes = scan (filter (\<lambda>x. \<not> D x) bytes)"
  using ns
proof (induction bytes arbitrary: prev gap)
  case Nil
  show ?case by simp
next
  case (Cons x rest)
  let ?K = "\<lambda>x. \<not> D x"
  show ?case
  proof (cases "D x")
    case True
    then have "no_split D prev True rest" using Cons.prems by simp
    from Cons.IH[OF this] show ?thesis
      using True D[OF True] by simp
  next
    case keep: False
    then have ns: "no_split D (Some x) False rest" using Cons.prems by simp
    note IH = Cons.IH[OF ns]
    show ?thesis
    proof (cases "classify x")
      case None
      then show ?thesis using IH keep by simp
    next
      case (Some i)
      show ?thesis
      proof (cases "foldable x")
        case False
        then show ?thesis using IH keep Some by simp
      next
        case f: True
        show ?thesis
        proof (cases rest)
          case Nil
          then show ?thesis using keep Some by simp
        next
          case (Cons y rest')
          show ?thesis
          proof (cases "D y")
            case True
            then have "y \<noteq> x" using D[OF True] Some by auto
            then have l: "scan (x # rest) = (i, 1) # scan rest"
              using Cons by (intro scan_run_end[OF Some]) simp
            have "no_split D (Some x) True rest'"
              using ns Cons True by simp
            from no_split_gap_hd[OF this f]
            have "filter ?K rest = [] \<or> hd (filter ?K rest) \<noteq> x"
              using Cons True by simp
            then have "scan (x # filter ?K rest) = (i, 1) # scan (filter ?K rest)"
              by (rule scan_run_end[OF Some])
            then show ?thesis using l IH keep by simp
          next
            case False
            show ?thesis
            proof (cases "y = x")
              case True
              have "scan (x # rest) = (case scan rest of [] \<Rightarrow> [] | (j, m) # ops \<Rightarrow> (j, Suc m) # ops)"
                unfolding Cons True by (rule scan_run_step[OF f])
              moreover have "filter ?K rest = x # filter ?K rest'"
                using Cons True False by simp
              then have "scan (x # filter ?K rest)
                  = (case scan (filter ?K rest) of [] \<Rightarrow> [] | (j, m) # ops \<Rightarrow> (j, Suc m) # ops)"
                by (simp only: scan_run_step[OF f])
              ultimately show ?thesis using IH keep by simp
            next
              case ne: False
              have l: "scan (x # rest) = (i, 1) # scan rest"
                using Cons ne by (intro scan_run_end[OF Some]) simp
              have "hd (filter ?K rest) \<noteq> x"
                using Cons False ne by simp
              then have "scan (x # filter ?K rest) = (i, 1) # scan (filter ?K rest)"
                by (intro scan_run_end[OF Some]) simp
              then show ?thesis using l IH keep by simp
            qed
          qed
        qed
      qed
    qed
  qed
qed

lemma emission_filter:
  assumes small: "length bytes < 2 ^ 30"
    and D: "\<And>x. D x \<Longrightarrow> classify x = None"
    and ns: "no_split D None False bytes"
  shows "emission (bfc_main bytes) = emission (bfc_main (filter (\<lambda>x. \<not> D x) bytes))"
proof -
  have small': "length (filter (\<lambda>x. \<not> D x) bytes) < 2 ^ 30"
    by (rule le_less_trans[OF length_filter_le small])
  have "pipeline bytes = pipeline (filter (\<lambda>x. \<not> D x) bytes)"
    unfolding pipeline_def using scan_filter[OF D ns] by simp
  then show ?thesis
    unfolding emission_pipeline[OF small] emission_pipeline[OF small'] by simp
qed

lemma not_instruction_classify: "\<not> is_instruction x \<Longrightarrow> classify x = None"
  by (simp add: is_instruction_def classify_None)

text \<open>
  C7, as the code has it. A byte that is none of the eight characters is skipped without
  error: the iteration changes nothing but the cursor. The run of the program on a
  source and on the same source with those bytes removed exit alike and write the same
  text, provided removing the bytes brings no two equal bytes \<^verbatim>\<open>+ - > <\<close> together:
  \<^verbatim>\<open>count_repeats\<close> counts adjacent bytes of the file, so a byte inside a run ends it.
\<close>

theorem noise_inert_unless_run_split:
  assumes small: "length bytes < 2 ^ 30"
    and ns: "no_split (\<lambda>x. \<not> is_instruction x) None False bytes"
  shows "emission (bfc_main bytes) = emission (bfc_main (filter is_instruction bytes)) \<and>
     (\<forall>c src. \<not> is_instruction (code src ! unat (position src)) \<longrightarrow>
        compile_step c src = Inr (c, src\<lparr>position := position src + 1\<rparr>))"
proof -
  have "emission (bfc_main bytes)
      = emission (bfc_main (filter (\<lambda>x. \<not> \<not> is_instruction x) bytes))"
    using small _ ns by (rule emission_filter) (rule not_instruction_classify)
  moreover have "compile_step c src = Inr (c, src\<lparr>position := position src + 1\<rparr>)"
    if "\<not> is_instruction (code src ! unat (position src))" for c src
    using not_instruction_classify[OF that] by (rule compile_step_skip) simp
  ultimately show ?thesis by simp
qed

theorem noise_inert_unless_run_split_witness:
  "length ''++ [ - ]x'' < (2::nat) ^ 30 \<and>
   no_split (\<lambda>x. \<not> is_instruction x) None False ''++ [ - ]x'' \<and>
   filter is_instruction ''++ [ - ]x'' = ''++[-]'' \<and>
   emission (bfc_main ''++ [ - ]x'') = emission (bfc_main ''++[-]'')"
proof -
  have h1: "length ''++ [ - ]x'' < (2::nat) ^ 30" by simp
  have h2: "no_split (\<lambda>x. \<not> is_instruction x) None False ''++ [ - ]x''"
    by (simp add: is_instruction_def foldable_def)
  have f: "filter is_instruction ''++ [ - ]x'' = ''++[-]''"
    by (simp add: is_instruction_def)
  show ?thesis
    using noise_inert_unless_run_split[OF h1 h2] h2 f by simp
qed

text \<open>The claim as the specification states it fails: a blank between two \<^verbatim>\<open>+\<close> gives two
  \<^verbatim>\<open>incb\<close>, the stripped source one \<^verbatim>\<open>addb $2\<close>.\<close>

theorem noise_inert_counterexample:
  "filter is_instruction ''+ +'' = ''++'' \<and>
   emission (bfc_main ''+ +'') \<noteq> emission (bfc_main (filter is_instruction ''+ +''))"
  by code_simp

text \<open>
  C10, as the code has it. The NUL byte passes the \<^verbatim>\<open>strchr\<close> test, \<^verbatim>\<open>compile_instruction\<close>
  has no case for it and returns the compiler unchanged, and the iteration changes
  nothing but the cursor. The run on a source and on the same source without its NUL
  bytes exit alike and write the same text, provided removing the NUL bytes brings no two
  equal bytes \<^verbatim>\<open>+ - > <\<close> together.
\<close>

theorem nul_inert_unless_run_split:
  assumes small: "length bytes < 2 ^ 30"
    and ns: "no_split (\<lambda>x. x = CHR 0x00) None False bytes"
  shows "strchr ''+-><.,[]'' (CHR 0x00) \<and>
     (\<forall>c. compile_instruction c (CHR 0x00) = Inr c) \<and>
     (\<forall>c src. code src ! unat (position src) = CHR 0x00 \<longrightarrow>
        compile_step c src = Inr (c, src\<lparr>position := position src + 1\<rparr>)) \<and>
     emission (bfc_main bytes) = emission (bfc_main (filter (\<lambda>x. x \<noteq> CHR 0x00) bytes))"
proof -
  have nul: "classify (CHR 0x00) = None"
    by (simp add: classify_def)
  have "emission (bfc_main bytes) = emission (bfc_main (filter (\<lambda>x. \<not> x = CHR 0x00) bytes))"
    using small _ ns by (rule emission_filter) (simp add: nul)
  moreover have "compile_step c src = Inr (c, src\<lparr>position := position src + 1\<rparr>)"
    if "code src ! unat (position src) = CHR 0x00" for c src
    using nul that by (rule compile_step_skip)
  moreover have "strchr ''+-><.,[]'' (CHR 0x00)"
    by (simp add: strchr_def)
  ultimately show ?thesis
    using compile_instruction_other[OF nul] by simp
qed

theorem nul_inert_unless_run_split_witness:
  "no_split (\<lambda>x. x = CHR 0x00) None False [CHR ''+'', CHR 0x00, CHR ''-'', CHR 0x00, CHR 0x00, CHR ''.''] \<and>
   emission (bfc_main [CHR ''+'', CHR 0x00, CHR ''-'', CHR 0x00, CHR 0x00, CHR ''.''])
     = emission (bfc_main ''+-.'')"
proof -
  let ?b = "[CHR ''+'', CHR 0x00, CHR ''-'', CHR 0x00, CHR 0x00, CHR ''.'']"
  have h1: "length ?b < (2::nat) ^ 30" by simp
  have h2: "no_split (\<lambda>x. x = CHR 0x00) None False ?b"
    by (simp add: foldable_def)
  show ?thesis
    using nul_inert_unless_run_split[OF h1 h2] h2 by simp
qed

theorem nul_inert_counterexample:
  "emission (bfc_main [CHR ''+'', CHR 0x00, CHR ''+''])
     \<noteq> emission (bfc_main (filter (\<lambda>x. x \<noteq> CHR 0x00) [CHR ''+'', CHR 0x00, CHR ''+'']))"
  by code_simp

end
